theory Spec2Isabelle
  imports Main
begin

section \<open>Strings of code points\<close>

text \<open>
  A Python \<open>str\<close> is a sequence of Unicode code points, and \<open>strip\<close>, \<open>replace\<close>,
  \<open>startswith\<close> and the \<open>re\<close> module all work on code points. A string is therefore
  modelled as the list of its code points (\<open>ord\<close> of each character). ASCII literals
  of the source are written with \<open>asc\<close>.
\<close>

type_synonym ustr = "nat list"

definition asc :: "string \<Rightarrow> ustr" where
  "asc s = map of_char s"

text \<open>
  \<open>str.strip()\<close>, \<open>str.isspace()\<close> and the class \<open>\s\<close> of a \<open>str\<close> pattern share one
  table of whitespace code points (CPython's \<open>Py_UNICODE_ISSPACE\<close>).
\<close>

definition space_points :: "nat list" where
  "space_points =
     [9, 10, 11, 12, 13, 28, 29, 30, 31, 32, 133, 160, 5760,
      8192, 8193, 8194, 8195, 8196, 8197, 8198, 8199, 8200, 8201, 8202,
      8232, 8233, 8239, 8287, 12288]"

definition is_space :: "nat \<Rightarrow> bool" where
  "is_space c = (c \<in> set space_points)"

text \<open>
  The class \<open>\d\<close> of a \<open>str\<close> pattern is the Unicode category Nd, which consists of
  runs of ten consecutive code points. \<open>digit_zeros\<close> lists the first code point of
  each run, for Unicode 15.0 (CPython 3.12, the first version that accepts the
  f-strings of \<open>build_site\<close>).
\<close>

definition digit_zeros :: "nat list" where
  "digit_zeros =
     [48, 1632, 1776, 1984, 2406, 2534, 2662, 2790, 2918, 3046, 3174, 3302, 3430,
      3558, 3664, 3792, 3872, 4160, 4240, 6112, 6160, 6470, 6608, 6784, 6800, 6992,
      7088, 7232, 7248, 42528, 43216, 43264, 43472, 43504, 43600, 44016, 65296,
      66720, 68912, 69734, 69872, 69942, 70096, 70384, 70736, 70864, 71248, 71360,
      71472, 71904, 72016, 72784, 73040, 73120, 73552, 92768, 92864, 93008,
      120782, 120792, 120802, 120812, 120822, 123200, 123632, 124144, 125264,
      130032]"

definition is_digit :: "nat \<Rightarrow> bool" where
  "is_digit c = list_ex (\<lambda>z. z \<le> c \<and> c < z + 10) digit_zeros"

definition strip :: "ustr \<Rightarrow> ustr" where
  "strip s = rev (dropWhile is_space (rev (dropWhile is_space s)))"

definition replace_char :: "nat \<Rightarrow> nat \<Rightarrow> ustr \<Rightarrow> ustr" where
  \<comment> \<open>\<open>s.replace(a, b)\<close> for one-character strings \<open>a\<close> and \<open>b\<close>\<close>
  "replace_char a b s = map (\<lambda>c. if c = a then b else c) s"

definition startswith :: "ustr \<Rightarrow> ustr \<Rightarrow> bool" where
  "startswith s p = (take (length p) s = p)"

definition endswith :: "ustr \<Rightarrow> ustr \<Rightarrow> bool" where
  "endswith s p = (length p \<le> length s \<and> drop (length s - length p) s = p)"

section \<open>Constants of the module\<close>

definition DOT_JP :: nat where "DOT_JP = 12539"
definition DOT_CN :: nat where "DOT_CN = 183"
definition CATEGORY_SEP :: nat where "CATEGORY_SEP = 12289"

section \<open>Line normalizer\<close>

definition normalize_group_title :: "ustr \<Rightarrow> ustr" where
  "normalize_group_title title =
     strip (replace_char 160 32 (replace_char 63 DOT_CN (replace_char DOT_JP DOT_CN title)))"

text \<open>
  \<open>re.sub(r"\s*\d+\s*$", "", s)\<close>. The classes \<open>\s\<close> and \<open>\d\<close> are disjoint, so a
  match starting at a given position is unique: the longest whitespace run, the
  longest digit run (at least one digit), the longest whitespace run, and then the
  end of the string. \<open>suffix_match\<close> decides whether the pattern matches the whole
  of \<open>s\<close>; \<open>sub_page_suffix\<close> cuts the string at the leftmost position where it does.
  The pattern matches no empty string, so there is at most one replacement.
\<close>

definition suffix_match :: "ustr \<Rightarrow> bool" where
  "suffix_match s =
     (let r = dropWhile is_space s; r2 = dropWhile is_digit r
      in r \<noteq> r2 \<and> dropWhile is_space r2 = [])"

fun sub_page_suffix :: "ustr \<Rightarrow> ustr" where
  "sub_page_suffix [] = []"
| "sub_page_suffix (c # cs) = (if suffix_match (c # cs) then [] else c # sub_page_suffix cs)"

definition normalize_entry :: "ustr \<Rightarrow> ustr" where
  "normalize_entry line =
     (let s = strip line in
      if s = [] then []
      else if startswith s (asc ''***'') then []
      else if startswith s (asc ''=='') \<and> endswith s (asc ''=='') then []
      else strip (sub_page_suffix s))"

section \<open>Patterns of the parser\<close>

text \<open>
  Each compiled pattern is modelled by the function that \<open>pattern.match(s)\<close> computes:
  \<open>None\<close> (or \<open>False\<close>) when there is no match, the captured groups otherwise.
  \<open>.\<close> matches every code point but the line feed 10, and \<open>$\<close> matches at the end of
  the string and before a line feed that ends the string.
\<close>

definition SCREENSHOT_RE :: "ustr \<Rightarrow> bool" where
  \<comment> \<open>\<open>^==Screenshot for page\s*\d+==\s*$\<close>\<close>
  "SCREENSHOT_RE line =
     (let p = asc ''==Screenshot for page'' in
      startswith line p \<and>
      (let r1 = dropWhile is_space (drop (length p) line); r2 = dropWhile is_digit r1
       in r1 \<noteq> r2 \<and> take 2 r2 = asc ''=='' \<and> list_all is_space (drop 2 r2)))"

definition BOLD_RE :: "ustr \<Rightarrow> ustr option" where
  \<comment> \<open>\<open>^\*\*(.+)\*\*$\<close>, returning group 1\<close>
  "BOLD_RE line =
     (let body = (if line \<noteq> [] \<and> last line = 10 then butlast line else line);
          inner = take (length body - 4) (drop 2 body)
      in if 5 \<le> length body \<and> take 2 body = asc ''**''
            \<and> drop (length body - 2) body = asc ''**'' \<and> 10 \<notin> set inner
         then Some inner else None)"

definition PAGE_BOLD_NUM_RE :: "ustr \<Rightarrow> bool" where
  \<comment> \<open>\<open>^\d+$\<close>\<close>
  "PAGE_BOLD_NUM_RE t = (let r = dropWhile is_digit t in t \<noteq> r \<and> (r = [] \<or> r = [10]))"

definition NUM_HEADING_RE :: "ustr \<Rightarrow> bool" where
  \<comment> \<open>the inline pattern \<open>^\d+\s+\<close>\<close>
  "NUM_HEADING_RE t = (let r = dropWhile is_digit t in t \<noteq> r \<and> r \<noteq> [] \<and> is_space (hd r))"

text \<open>
  \<open>^(\d+)\.\s*(.+)$\<close>: the digits and the dot are forced. When something other than
  whitespace follows, group 2 is the rest of the string, which must hold no line feed
  (one at the very end apart). When only whitespace follows the dot, \<open>\s*\<close> gives back
  its last character (or the one before a final line feed) for group 2.
\<close>

definition SUBCATEGORY_RE :: "ustr \<Rightarrow> (ustr \<times> ustr) option" where
  "SUBCATEGORY_RE t =
     (let g1 = takeWhile is_digit t; r = dropWhile is_digit t in
      if g1 = [] \<or> r = [] \<or> hd r \<noteq> 46 then None
      else
        let w = takeWhile is_space (tl r); r2 = dropWhile is_space (tl r) in
        if r2 \<noteq> [] then
          (let x = takeWhile (\<lambda>c. c \<noteq> 10) r2; y = dropWhile (\<lambda>c. c \<noteq> 10) r2
           in if y = [] \<or> y = [10] then Some (g1, x) else None)
        else if w = [] then None
        else if last w \<noteq> 10 then Some (g1, [last w])
        else if 2 \<le> length w \<and> last (butlast w) \<noteq> 10 then Some (g1, [last (butlast w)])
        else None)"

section \<open>Data model\<close>

text \<open>
  The three dataclasses. Their fields \<open>title\<close> and \<open>file\<close> get a prefix, since the
  records live in one name space.
\<close>

record group =
  gtitle :: ustr
  entries :: "ustr list"
  gfile :: ustr

record subcategory =
  stitle :: ustr
  groups :: "group list"
  sfile :: ustr

record category =
  ctitle :: ustr
  subcategories :: "subcategory list"
  cfile :: ustr

definition Group :: "ustr \<Rightarrow> ustr list \<Rightarrow> group" where
  "Group t es = \<lparr>gtitle = t, entries = es, gfile = []\<rparr>"

definition Subcategory :: "ustr \<Rightarrow> subcategory" where
  "Subcategory t = \<lparr>stitle = t, groups = [], sfile = []\<rparr>"

definition Category :: "ustr \<Rightarrow> category" where
  "Category t = \<lparr>ctitle = t, subcategories = [], cfile = []\<rparr>"

section \<open>Outline parser\<close>

text \<open>
  The local variables of \<open>parse_markdown\<close>. \<open>cur_cat\<close> and \<open>cur_sub\<close> are references to
  objects that the list \<open>categories\<close> owns, and the parser mutates the tree through
  them; a reference is modelled by the position of its object in the tree: the index
  of the category, and the pair of the category's index and the subcategory's index
  in it. Objects are only ever appended, so a position keeps naming the same object.
\<close>

record pstate =
  categories :: "category list"
  cur_cat :: "nat option"
  cur_sub :: "(nat \<times> nat) option"
  cur_group_title :: "ustr option"
  cur_entries :: "ustr list"

definition init_state :: pstate where
  "init_state = \<lparr>categories = [], cur_cat = None, cur_sub = None,
                  cur_group_title = None, cur_entries = []\<rparr>"

definition truthy :: "ustr option \<Rightarrow> bool" where
  \<comment> \<open>the truth value of a variable of type \<open>str | None\<close>\<close>
  "truthy v = (case v of None \<Rightarrow> False | Some s \<Rightarrow> s \<noteq> [])"

definition append_subcategory :: "category list \<Rightarrow> nat \<Rightarrow> subcategory \<Rightarrow> category list" where
  \<comment> \<open>\<open>cat.subcategories.append(sub)\<close> for the category at position \<open>i\<close>\<close>
  "append_subcategory cats i sub =
     cats[i := (cats ! i)\<lparr>subcategories := subcategories (cats ! i) @ [sub]\<rparr>]"

definition append_group :: "category list \<Rightarrow> nat \<times> nat \<Rightarrow> group \<Rightarrow> category list" where
  \<comment> \<open>\<open>sub.groups.append(g)\<close> for the subcategory at position \<open>(i, j)\<close>\<close>
  "append_group cats p g =
     (let i = fst p; j = snd p; subs = subcategories (cats ! i)
      in cats[i := (cats ! i)\<lparr>subcategories :=
                     subs[j := (subs ! j)\<lparr>groups := groups (subs ! j) @ [g]\<rparr>]\<rparr>])"

definition flush_group :: "pstate \<Rightarrow> pstate" where
  "flush_group st =
     (let st1 =
        (case cur_sub st of
           Some p \<Rightarrow>
             if truthy (cur_group_title st)
             then st\<lparr>categories := append_group (categories st) p
                        (Group (normalize_group_title (the (cur_group_title st))) (cur_entries st))\<rparr>
             else st
         | None \<Rightarrow> st)
      in st1\<lparr>cur_group_title := None, cur_entries := []\<rparr>)"

definition start_category :: "ustr \<Rightarrow> pstate \<Rightarrow> pstate" where
  \<comment> \<open>the branch of a Category heading, after the flush\<close>
  "start_category title st =
     st\<lparr>categories := categories st @ [Category title],
        cur_cat := Some (length (categories st)),
        cur_sub := None\<rparr>"

definition start_subcategory :: "ustr \<Rightarrow> pstate \<Rightarrow> pstate" where
  \<comment> \<open>the branch of a Subcategory heading, after the flush\<close>
  "start_subcategory title st =
     (let st1 = (case cur_cat st of
                   None \<Rightarrow> st\<lparr>categories := categories st @ [Category [26410, 20998, 31867]],
                              cur_cat := Some (length (categories st))\<rparr>
                 | Some i \<Rightarrow> st);
          i = the (cur_cat st1);
          j = length (subcategories (categories st1 ! i))
      in st1\<lparr>categories := append_subcategory (categories st1) i (Subcategory title),
             cur_sub := Some (i, j)\<rparr>)"

definition step :: "pstate \<Rightarrow> ustr \<Rightarrow> pstate" where
  \<comment> \<open>the body of the loop \<open>for raw in lines\<close>\<close>
  "step st raw =
     (let line = strip raw in
      if line = [] then st
      else if SCREENSHOT_RE line then st
      else
        case BOLD_RE line of
          Some g \<Rightarrow>
            (let title = strip g in
             if PAGE_BOLD_NUM_RE title then st
             else if NUM_HEADING_RE title \<and> SUBCATEGORY_RE title = None then flush_group st
             else if CATEGORY_SEP \<in> set title \<and> endswith title [31867]
                     \<and> SUBCATEGORY_RE title = None
               then start_category title (flush_group st)
             else
               case SUBCATEGORY_RE title of
                 Some sm \<Rightarrow>
                   start_subcategory (fst sm @ asc ''. '' @ strip (snd sm)) (flush_group st)
               | None \<Rightarrow> (flush_group st)\<lparr>cur_group_title := Some title\<rparr>)
        | None \<Rightarrow>
            if truthy (cur_group_title st) then
              (let normalized = normalize_entry line in
               if normalized \<noteq> [] then st\<lparr>cur_entries := cur_entries st @ [normalized]\<rparr>
               else st)
            else st)"

definition parse_lines :: "ustr list \<Rightarrow> category list" where
  \<comment> \<open>the loop over \<open>lines\<close>, the final flush and the return\<close>
  "parse_lines lines = categories (flush_group (foldl step init_state lines))"

definition splitlines_breaks :: "nat list" where
  \<comment> \<open>the line boundaries of \<open>str.splitlines()\<close>\<close>
  "splitlines_breaks = [10, 11, 12, 13, 28, 29, 30, 133, 8232, 8233]"

fun splitlines_from :: "ustr \<Rightarrow> ustr \<Rightarrow> ustr list" where
  \<comment> \<open>\<open>cur\<close> is the line read so far; a carriage return and a line feed after it
      are one boundary; no empty last line\<close>
  "splitlines_from cur [] = (if cur = [] then [] else [cur])"
| "splitlines_from cur (c # cs) =
     (if c = 13 then
        (case cs of
           [] \<Rightarrow> [cur]
         | d # ds \<Rightarrow> if d = 10 then cur # splitlines_from [] ds
                     else cur # splitlines_from [] (d # ds))
      else if c \<in> set splitlines_breaks then cur # splitlines_from [] cs
      else splitlines_from (cur @ [c]) cs)"

definition splitlines :: "ustr \<Rightarrow> ustr list" where
  "splitlines text = splitlines_from [] text"

definition parse_markdown :: "ustr \<Rightarrow> category list" where
  \<comment> \<open>\<open>text\<close> is what \<open>path.read_text\<close> returned\<close>
  "parse_markdown text = parse_lines (splitlines text)"

section \<open>Filename assignment of the site renderer\<close>

text \<open>
  The format specifications \<open>02d\<close> and \<open>04d\<close> of an f-string: the decimal digits of a
  non-negative integer, padded on the left with zeros up to the width; longer
  numbers are not cut.
\<close>

function decimal :: "nat \<Rightarrow> ustr" where
  "decimal n = (if n < 10 then [48 + n] else decimal (n div 10) @ [48 + n mod 10])"
  by pat_completeness auto
termination
  by (relation "measure id") auto

declare decimal.simps [simp del]

definition fmt_d :: "nat \<Rightarrow> nat \<Rightarrow> ustr" where
  "fmt_d w n = replicate (w - length (decimal n)) 48 @ decimal n"

definition cat_file :: "nat \<Rightarrow> ustr" where
  "cat_file cat_idx = asc ''c'' @ fmt_d 2 cat_idx @ asc ''.html''"

definition sub_file :: "nat \<Rightarrow> nat \<Rightarrow> ustr" where
  "sub_file cat_idx sub_idx =
     asc ''c'' @ fmt_d 2 cat_idx @ asc ''_s'' @ fmt_d 2 sub_idx @ asc ''.html''"

definition group_file :: "nat \<Rightarrow> ustr" where
  "group_file group_id = asc ''g'' @ fmt_d 4 group_id @ asc ''.html''"

definition assign_cat_files :: "category list \<Rightarrow> category list" where
  \<comment> \<open>the first loop of \<open>build_site\<close>, over \<open>enumerate(categories, start=1)\<close>\<close>
  "assign_cat_files cats =
     map (\<lambda>(cat_idx, cat).
            cat\<lparr>cfile := cat_file cat_idx,
                subcategories :=
                  map (\<lambda>(sub_idx, sub). sub\<lparr>sfile := sub_file cat_idx sub_idx\<rparr>)
                      (enumerate 1 (subcategories cat))\<rparr>)
         (enumerate 1 cats)"

text \<open>The second loop threads the counter \<open>group_id\<close> through the three nested loops.\<close>

fun number_groups :: "nat \<Rightarrow> group list \<Rightarrow> nat \<times> group list" where
  "number_groups group_id [] = (group_id, [])"
| "number_groups group_id (g # gs) =
     (let r = number_groups (group_id + 1) gs
      in (fst r, g\<lparr>gfile := group_file (group_id + 1)\<rparr> # snd r))"

fun number_subs :: "nat \<Rightarrow> subcategory list \<Rightarrow> nat \<times> subcategory list" where
  "number_subs group_id [] = (group_id, [])"
| "number_subs group_id (s # ss) =
     (let r1 = number_groups group_id (groups s);
          r2 = number_subs (fst r1) ss
      in (fst r2, s\<lparr>groups := snd r1\<rparr> # snd r2))"

fun number_cats :: "nat \<Rightarrow> category list \<Rightarrow> nat \<times> category list" where
  "number_cats group_id [] = (group_id, [])"
| "number_cats group_id (c # cs) =
     (let r1 = number_subs group_id (subcategories c);
          r2 = number_cats (fst r1) cs
      in (fst r2, c\<lparr>subcategories := snd r1\<rparr> # snd r2))"

definition assign_filenames :: "category list \<Rightarrow> category list" where
  \<comment> \<open>the part of \<open>build_site\<close> under the comment "Assign filenames" and the loop
      with \<open>group_id\<close>; the tree holds every object once, as the parser builds it\<close>
  "assign_filenames cats = snd (number_cats 0 (assign_cat_files cats))"

section \<open>Notions used to state the properties\<close>

definition all_subcategories :: "category list \<Rightarrow> subcategory list" where
  "all_subcategories cats = concat (map subcategories cats)"

definition all_groups :: "category list \<Rightarrow> group list" where
  "all_groups cats = concat (map groups (all_subcategories cats))"

definition all_entries :: "category list \<Rightarrow> ustr list" where
  "all_entries cats = concat (map entries (all_groups cats))"

definition all_files :: "category list \<Rightarrow> ustr list" where
  \<comment> \<open>the filename of every node of the tree, one per node\<close>
  "all_files cats =
     map cfile cats @ map sfile (all_subcategories cats) @ map gfile (all_groups cats)"

definition ascii_digit :: "nat \<Rightarrow> bool" where
  "ascii_digit c = (48 \<le> c \<and> c < 58)"

definition decimal_value :: "ustr \<Rightarrow> nat" where
  \<comment> \<open>the number that a string of ASCII digits denotes\<close>
  "decimal_value s = foldl (\<lambda>a c. 10 * a + (c - 48)) 0 s"

definition skeleton :: "category list \<Rightarrow> (ustr \<times> ustr list) list" where
  \<comment> \<open>the titles of the Categories, each with the titles of its Subcategories\<close>
  "skeleton cats = map (\<lambda>c. (ctitle c, map stitle (subcategories c))) cats"

definition stripped :: "ustr \<Rightarrow> bool" where
  \<comment> \<open>no whitespace at either end\<close>
  "stripped s = (s = [] \<or> (\<not> is_space (hd s) \<and> \<not> is_space (last s)))"

definition cut_page_number :: "ustr \<Rightarrow> ustr" where
  \<comment> \<open>the string without the digits that end it and the whitespace before them\<close>
  "cut_page_number s = rev (dropWhile is_space (dropWhile is_digit (rev s)))"

definition has_page_suffix :: "ustr \<Rightarrow> bool" where
  \<comment> \<open>the string ends with whitespace followed by one or more digits\<close>
  "has_page_suffix e =
     (let r = dropWhile is_digit (rev e) in r \<noteq> rev e \<and> r \<noteq> [] \<and> is_space (hd r))"

definition canon :: "nat \<Rightarrow> nat" where
  \<comment> \<open>what the three replacements of \<open>normalize_group_title\<close> do to one code point\<close>
  "canon c = (if c = DOT_JP \<or> c = 63 then DOT_CN else if c = 160 then 32 else c)"

text \<open>
  The kind of a raw line: the branch of the loop body that handles it, with the
  title or the stripped line that the branch works on.
\<close>

datatype line_kind =
    Ignored
  | PageNumber
  | NumericHeading
  | CategoryHeading ustr
  | SubcategoryHeading ustr
  | GroupHeading ustr
  | EntryLine ustr

definition classify :: "ustr \<Rightarrow> line_kind" where
  "classify raw =
     (let line = strip raw in
      if line = [] then Ignored
      else if SCREENSHOT_RE line then Ignored
      else
        case BOLD_RE line of
          Some g \<Rightarrow>
            (let title = strip g in
             if PAGE_BOLD_NUM_RE title then PageNumber
             else if NUM_HEADING_RE title \<and> SUBCATEGORY_RE title = None then NumericHeading
             else if CATEGORY_SEP \<in> set title \<and> endswith title [31867]
                     \<and> SUBCATEGORY_RE title = None
               then CategoryHeading title
             else
               case SUBCATEGORY_RE title of
                 Some sm \<Rightarrow> SubcategoryHeading (fst sm @ asc ''. '' @ strip (snd sm))
               | None \<Rightarrow> GroupHeading title)
        | None \<Rightarrow> EntryLine line)"

definition is_category_heading :: "ustr \<Rightarrow> bool" where
  "is_category_heading raw = (case classify raw of CategoryHeading t \<Rightarrow> True | _ \<Rightarrow> False)"

definition is_subcategory_heading :: "ustr \<Rightarrow> bool" where
  "is_subcategory_heading raw = (case classify raw of SubcategoryHeading t \<Rightarrow> True | _ \<Rightarrow> False)"

definition is_group_heading :: "ustr \<Rightarrow> bool" where
  "is_group_heading raw = (case classify raw of GroupHeading t \<Rightarrow> True | _ \<Rightarrow> False)"

definition is_bold :: "ustr \<Rightarrow> bool" where
  \<comment> \<open>\<open>BOLD_RE\<close> matches the stripped line\<close>
  "is_bold raw = (BOLD_RE (strip raw) \<noteq> None)"

lemmas eval_defs =
  is_digit_def digit_zeros_def is_space_def space_points_def strip_def asc_def
  startswith_def endswith_def suffix_match_def normalize_entry_def SCREENSHOT_RE_def
  BOLD_RE_def PAGE_BOLD_NUM_RE_def NUM_HEADING_RE_def SUBCATEGORY_RE_def Group_def
  Subcategory_def Category_def init_state_def truthy_def append_subcategory_def
  append_group_def flush_group_def start_category_def start_subcategory_def step_def
  parse_lines_def normalize_group_title_def replace_char_def DOT_JP_def DOT_CN_def
  CATEGORY_SEP_def Let_def

section \<open>Whitespace stripping\<close>

lemma dropWhile_last:
  "dropWhile P xs \<noteq> [] \<Longrightarrow> last (dropWhile P xs) = last xs"
  by (induction xs) (auto split: if_splits)

lemma strip_stripped: "stripped (strip s)"
proof (cases "dropWhile is_space s = []")
  case True
  have "strip s = []" unfolding strip_def True by simp
  then show ?thesis by (simp add: stripped_def)
next
  case False
  let ?d = "dropWhile is_space s"
  let ?r = "dropWhile is_space (rev ?d)"
  have hd: "\<not> is_space (hd ?d)" using False by (simp add: hd_dropWhile)
  have "\<not> is_space (last (rev ?d))" using hd False by (simp add: last_rev)
  then have rne: "?r \<noteq> []"
    using False by (metis dropWhile_eq_Nil_conv last_in_set rev_is_Nil_conv)
  have h1: "\<not> is_space (hd ?r)" using rne by (simp add: hd_dropWhile)
  have "last ?r = last (rev ?d)" using rne by (rule dropWhile_last)
  then have h2: "\<not> is_space (last ?r)" using hd False by (simp add: last_rev)
  show ?thesis using rne h1 h2
    by (simp add: strip_def stripped_def hd_rev last_rev)
qed

lemma stripped_strip_id: "stripped s \<Longrightarrow> strip s = s"
proof (cases s)
  case Nil then show ?thesis by (simp add: strip_def)
next
  case (Cons x xs)
  assume "stripped s"
  then have a: "\<not> is_space (hd s)" and b: "\<not> is_space (last s)"
    using Cons by (auto simp: stripped_def)
  have "dropWhile is_space s = s" using a Cons by simp
  moreover have "dropWhile is_space (rev s) = rev s"
  proof (cases "rev s")
    case Nil then show ?thesis by simp
  next
    case (Cons y ys)
    then have "y = last s" by (metis hd_rev list.sel(1))
    then have "\<not> is_space y" using b by simp
    then show ?thesis unfolding Cons by simp
  qed
  ultimately show ?thesis by (simp add: strip_def)
qed

lemma strip_strip: "strip (strip s) = strip s"
  by (rule stripped_strip_id[OF strip_stripped])

lemma set_strip: "set (strip s) \<subseteq> set s"
proof -
  have "set (strip s) = set (dropWhile is_space (rev (dropWhile is_space s)))"
    by (simp add: strip_def)
  also have "\<dots> \<subseteq> set (rev (dropWhile is_space s))" by (auto dest: set_dropWhileD)
  also have "\<dots> \<subseteq> set s" by (auto dest: set_dropWhileD)
  finally show ?thesis .
qed

section \<open>Group titles\<close>

lemma normalize_group_title_canon: "normalize_group_title t = strip (map canon t)"
proof -
  have "(\<lambda>c. if c = 160 then 32 else c) \<circ>
        ((\<lambda>c. if c = 63 then DOT_CN else c) \<circ> (\<lambda>c. if c = DOT_JP then DOT_CN else c)) = canon"
    by (rule ext) (simp add: canon_def DOT_JP_def DOT_CN_def)
  then show ?thesis
    by (simp add: normalize_group_title_def replace_char_def)
qed

lemma canon_canon: "canon (canon c) = canon c"
  by (simp add: canon_def DOT_JP_def DOT_CN_def)

text \<open>
  Claim C7. Normalizing a group title twice gives the same string as normalizing it
  once, for every string.
\<close>

theorem normalize_group_title_idempotent:
  "normalize_group_title (normalize_group_title x) = normalize_group_title x"
proof -
  let ?y = "strip (map canon x)"
  have "\<forall>c \<in> set ?y. canon c = c"
    using set_strip[of "map canon x"] by (auto simp: canon_canon)
  then have "map canon ?y = ?y" by (simp add: map_idI)
  then show ?thesis by (simp add: normalize_group_title_canon strip_strip)
qed

section \<open>The worked example\<close>

text \<open>
  Claim C1. The six lines of the example (a Category heading, a Subcategory heading,
  a Group heading, an entry with the page number 3, a screenshot marker and a second
  entry) parse to exactly one Category titled with the code points of the first
  heading, holding exactly one Subcategory titled "1. " and the four code points of
  its name, holding exactly one Group titled with the two code points of its heading,
  whose entries are the two entry lines without the " 3" and without the marker. No
  filename is assigned yet.
\<close>

theorem parse_lines_example:
  "parse_lines
     [asc ''**'' @ [19968, 12289, 20154, 20307, 31867] @ asc ''**'',
      asc ''**1. '' @ [25163, 33218, 21160, 20316] @ asc ''**'',
      asc ''**'' @ [25381, 25163] @ asc ''**'',
      [25260, 36215, 25163, 33218] @ asc '' 3'',
      asc ''==Screenshot for page 5=='',
      [25918, 19979, 25163, 33218]]
   = [\<lparr>ctitle = [19968, 12289, 20154, 20307, 31867],
       subcategories =
         [\<lparr>stitle = asc ''1. '' @ [25163, 33218, 21160, 20316],
           groups =
             [\<lparr>gtitle = [25381, 25163],
               entries = [[25260, 36215, 25163, 33218], [25918, 19979, 25163, 33218]],
               gfile = []\<rparr>],
           sfile = []\<rparr>],
       cfile = []\<rparr>]"
  by (simp add: eval_defs)

section \<open>The model on small inputs\<close>

text \<open>The two character classes of the patterns are disjoint.\<close>

lemma digit_not_space: "is_space c \<Longrightarrow> \<not> is_digit c"
proof -
  have "list_all (\<lambda>c. \<not> is_digit c) space_points"
    by (simp add: space_points_def is_digit_def digit_zeros_def)
  then show "is_space c \<Longrightarrow> \<not> is_digit c"
    by (simp add: is_space_def list_all_iff)
qed

lemma splitlines_example:
  "splitlines (asc ''ab'' @ [13, 10] @ [10] @ asc ''c'' @ [8232] @ asc ''d'' @ [10])
     = [asc ''ab'', [], asc ''c'', asc ''d'']"
  by (simp add: splitlines_def splitlines_breaks_def asc_def)

lemma normalize_entry_examples:
  "normalize_entry (asc '' x 12 '') = asc ''x''"
  "normalize_entry (asc ''x12'') = asc ''x''"
  "normalize_entry (asc ''12'') = []"
  "normalize_entry (asc ''*** x'') = []"
  "normalize_entry (asc ''== x =='') = []"
  "normalize_entry (asc ''x'' @ [12288, 65299]) = asc ''x''"
  by (simp_all add: eval_defs)

lemma pattern_examples:
  "BOLD_RE (asc ''**a**b**'') = Some (asc ''a**b'')"
  "BOLD_RE (asc ''****'') = None"
  "SUBCATEGORY_RE (asc ''12.x y'') = Some (asc ''12'', asc ''x y'')"
  "SUBCATEGORY_RE (asc ''12.'') = None"
  "SUBCATEGORY_RE (asc ''1 2. x'') = None"
  "SCREENSHOT_RE (asc ''==Screenshot for page12== '')"
  "\<not> SCREENSHOT_RE (asc ''==Screenshot for page=='')"
  by (simp_all add: eval_defs)

section \<open>Classification of lines\<close>

lemma BOLD_RE_hd: "BOLD_RE l = Some g \<Longrightarrow> l \<noteq> [] \<and> hd l = 42"
proof -
  assume a: "BOLD_RE l = Some g"
  define body where "body = (if l \<noteq> [] \<and> last l = 10 then butlast l else l)"
  from a have len: "5 \<le> length body" and t: "take 2 body = asc ''**''"
    unfolding BOLD_RE_def body_def[symmetric] by (auto simp: Let_def split: if_splits)
  from len have bne: "body \<noteq> []" by auto
  then have "hd body = hd (take 2 body)" by (cases body) auto
  then have hb: "hd body = 42" using t by (simp add: asc_def)
  have "l \<noteq> []" using bne by (auto simp: body_def split: if_splits)
  moreover have "hd l = hd body"
    using len by (cases l) (auto simp: body_def split: if_splits)
  ultimately show ?thesis using hb by simp
qed

lemma startswith_hd: "startswith l p \<Longrightarrow> p \<noteq> [] \<Longrightarrow> l \<noteq> [] \<and> hd l = hd p"
  by (cases l; cases p) (auto simp: startswith_def)

lemma SCREENSHOT_RE_hd: "SCREENSHOT_RE l \<Longrightarrow> hd l = 61"
proof -
  assume "SCREENSHOT_RE l"
  then have "startswith l (asc ''==Screenshot for page'')"
    by (simp add: SCREENSHOT_RE_def Let_def)
  from startswith_hd[OF this] show ?thesis by (simp add: asc_def)
qed

lemma bold_not_screenshot: "BOLD_RE l = Some g \<Longrightarrow> \<not> SCREENSHOT_RE l"
  using BOLD_RE_hd SCREENSHOT_RE_hd by fastforce

lemma step_classify:
  "step st raw =
     (case classify raw of
        Ignored \<Rightarrow> st
      | PageNumber \<Rightarrow> st
      | NumericHeading \<Rightarrow> flush_group st
      | CategoryHeading t \<Rightarrow> start_category t (flush_group st)
      | SubcategoryHeading t \<Rightarrow> start_subcategory t (flush_group st)
      | GroupHeading t \<Rightarrow> (flush_group st)\<lparr>cur_group_title := Some t\<rparr>
      | EntryLine line \<Rightarrow>
          if truthy (cur_group_title st) \<and> normalize_entry line \<noteq> []
          then st\<lparr>cur_entries := cur_entries st @ [normalize_entry line]\<rparr> else st)"
  by (simp add: step_def classify_def Let_def split: option.splits)

lemma stripped_dropWhile_digit:
  assumes "stripped t" "dropWhile is_digit t = [c]" shows "\<not> is_space c"
proof -
  have "dropWhile is_digit t \<noteq> []" using assms by simp
  then have "last (dropWhile is_digit t) = last t" by (rule dropWhile_last)
  then have "last t = c" using assms by simp
  moreover have "t \<noteq> []" using assms by auto
  ultimately show ?thesis using assms(1) by (auto simp: stripped_def)
qed

lemma is_space_10: "is_space 10"
  by (simp add: is_space_def space_points_def)

lemma page_num_stripped:
  "PAGE_BOLD_NUM_RE (strip g) \<Longrightarrow> dropWhile is_digit (strip g) = [] \<and> strip g \<noteq> []"
  using stripped_dropWhile_digit[OF strip_stripped, of g 10] is_space_10
  by (auto simp: PAGE_BOLD_NUM_RE_def Let_def)

lemma num_heading_not_page:
  "NUM_HEADING_RE (strip g) \<Longrightarrow> \<not> PAGE_BOLD_NUM_RE (strip g)"
  using page_num_stripped[of g] by (auto simp: NUM_HEADING_RE_def Let_def)

lemma subcategory_not_page:
  "SUBCATEGORY_RE t = Some sm \<Longrightarrow> \<not> PAGE_BOLD_NUM_RE t"
  by (auto simp: SUBCATEGORY_RE_def PAGE_BOLD_NUM_RE_def Let_def split: if_splits)

lemma classify_page_number:
  "BOLD_RE (strip raw) = Some g \<Longrightarrow> PAGE_BOLD_NUM_RE (strip g) \<Longrightarrow> classify raw = PageNumber"
  using BOLD_RE_hd[of "strip raw" g] bold_not_screenshot[of "strip raw" g]
  by (simp add: classify_def Let_def)

lemma classify_numeric_heading:
  "BOLD_RE (strip raw) = Some g \<Longrightarrow> NUM_HEADING_RE (strip g) \<Longrightarrow>
   SUBCATEGORY_RE (strip g) = None \<Longrightarrow> classify raw = NumericHeading"
  using BOLD_RE_hd[of "strip raw" g] bold_not_screenshot[of "strip raw" g]
    num_heading_not_page[of g]
  by (simp add: classify_def Let_def)

lemma classify_subcategory:
  "BOLD_RE (strip raw) = Some g \<Longrightarrow> SUBCATEGORY_RE (strip g) = Some (n, name) \<Longrightarrow>
   classify raw = SubcategoryHeading (n @ asc ''. '' @ strip name)"
  using BOLD_RE_hd[of "strip raw" g] bold_not_screenshot[of "strip raw" g]
    subcategory_not_page[of "strip g" "(n, name)"]
  by (simp add: classify_def Let_def)

section \<open>Steps of the parser\<close>

lemma flush_group_title [simp]: "cur_group_title (flush_group st) = None"
  by (simp add: flush_group_def Let_def)

lemma flush_group_entries [simp]: "cur_entries (flush_group st) = []"
  by (simp add: flush_group_def Let_def)

lemma flush_group_cur_cat [simp]: "cur_cat (flush_group st) = cur_cat st"
  by (simp add: flush_group_def Let_def split: option.splits)

lemma flush_group_cur_sub [simp]: "cur_sub (flush_group st) = cur_sub st"
  by (simp add: flush_group_def Let_def split: option.splits)

lemma flush_group_categories:
  "categories (flush_group st) =
     (case cur_sub st of
        Some p \<Rightarrow> if truthy (cur_group_title st)
                  then append_group (categories st) p
                         (Group (normalize_group_title (the (cur_group_title st))) (cur_entries st))
                  else categories st
      | None \<Rightarrow> categories st)"
  by (simp add: flush_group_def Let_def split: option.splits)

lemma start_category_title [simp]:
  "cur_group_title (start_category t st) = cur_group_title st"
  by (simp add: start_category_def)

lemma start_category_entries [simp]: "cur_entries (start_category t st) = cur_entries st"
  by (simp add: start_category_def)

lemma start_subcategory_title [simp]:
  "cur_group_title (start_subcategory t st) = cur_group_title st"
  by (simp add: start_subcategory_def Let_def split: option.splits)

lemma start_subcategory_entries [simp]:
  "cur_entries (start_subcategory t st) = cur_entries st"
  by (simp add: start_subcategory_def Let_def split: option.splits)

lemma not_bold_kind:
  "\<not> is_bold l \<Longrightarrow> classify l = Ignored \<or> classify l = EntryLine (strip l)"
  by (auto simp: is_bold_def classify_def Let_def)

lemma step_no_pending:
  assumes "\<not> truthy (cur_group_title st)" "\<not> is_group_heading l"
  shows "\<not> truthy (cur_group_title (step st l))" and "\<not> is_bold l \<Longrightarrow> step st l = st"
proof -
  show "\<not> truthy (cur_group_title (step st l))"
    using assms
    by (cases "classify l") (auto simp: step_classify is_group_heading_def truthy_def)
  show "step st l = st" if "\<not> is_bold l"
    using not_bold_kind[OF that] assms(1) by (auto simp: step_classify)
qed

lemma no_pending_discards:
  "\<not> truthy (cur_group_title st) \<Longrightarrow> \<forall>l \<in> set mid. \<not> is_group_heading l \<Longrightarrow>
   foldl step st mid = foldl step st (filter is_bold mid)"
proof (induction mid arbitrary: st)
  case Nil
  then show ?case by simp
next
  case (Cons l mid)
  have ng: "\<not> is_group_heading l" using Cons.prems by simp
  have np: "\<not> truthy (cur_group_title (step st l))"
    using step_no_pending(1)[OF Cons.prems(1) ng] .
  show ?case
  proof (cases "is_bold l")
    case True
    then show ?thesis using Cons.IH[OF np] Cons.prems(2) by simp
  next
    case False
    have "step st l = st" using step_no_pending(2)[OF Cons.prems(1) ng False] .
    then show ?thesis using False Cons.IH[OF Cons.prems(1)] Cons.prems(2) by simp
  qed
qed

text \<open>
  Claim C5. A bold line whose inner title is purely digits changes nothing: the state
  after the line is the state before it (no node is created, the pending Group is not
  flushed and keeps accumulating), and the tree parsed from an input is the tree
  parsed from the same input without that line.
\<close>

theorem page_number_line_is_noise:
  assumes "BOLD_RE (strip raw) = Some g" and "PAGE_BOLD_NUM_RE (strip g)"
  shows "step st raw = st \<and> parse_lines (pre @ raw # post) = parse_lines (pre @ post)"
proof -
  have "step s raw = s" for s
    using classify_page_number[OF assms] by (simp add: step_classify)
  then show ?thesis by (simp add: parse_lines_def)
qed

theorem page_number_line_is_noise_witness:
  "BOLD_RE (strip (asc ''**42**'')) = Some (asc ''42'')
   \<and> PAGE_BOLD_NUM_RE (strip (asc ''42''))
   \<and> step \<lparr>categories = [], cur_cat = None, cur_sub = None,
            cur_group_title = Some (asc ''g''), cur_entries = [asc ''a'']\<rparr> (asc ''**42**'')
       = \<lparr>categories = [], cur_cat = None, cur_sub = None,
          cur_group_title = Some (asc ''g''), cur_entries = [asc ''a'']\<rparr>
   \<and> parse_lines ([asc ''**1. s**'', asc ''**g**'', asc ''a''] @ asc ''**42**'' # [asc ''b''])
       = parse_lines ([asc ''**1. s**'', asc ''**g**'', asc ''a''] @ [asc ''b''])"
proof -
  have h1: "BOLD_RE (strip (asc ''**42**'')) = Some (asc ''42'')"
    by (simp add: eval_defs)
  have h2: "PAGE_BOLD_NUM_RE (strip (asc ''42''))"
    by (simp add: eval_defs)
  show ?thesis
    using h1 h2 page_number_line_is_noise[OF h1 h2] by blast
qed

lemma not_group_heading_plain: "BOLD_RE (strip l) = None \<Longrightarrow> \<not> is_group_heading l"
  by (simp add: is_group_heading_def classify_def Let_def)

text \<open>
  Claim C4, amended. A bold line whose trimmed inner title starts with digits
  followed by whitespace and is not subcategory-shaped does exactly what a flush
  does. When a Group is pending and a Subcategory is current, the Group with the
  normalized pending title and the pending entries is appended to the Groups of that
  Subcategory; otherwise the tree stays as it is. No Category, no Subcategory and no
  other Group is created, the current Category and Subcategory stay, and the pending
  title and entries are cleared. After the line no Group is pending, so in every run
  of lines without a Group heading that follows, the lines that are not bold are
  attached to nothing: removing them changes neither the state nor the parsed tree.
\<close>

theorem numeric_heading_flushes_only:
  assumes "BOLD_RE (strip raw) = Some g" and "NUM_HEADING_RE (strip g)"
    and "SUBCATEGORY_RE (strip g) = None"
    and "\<forall>l \<in> set mid. \<not> is_group_heading l"
  shows "step st raw = flush_group st
         \<and> step st raw =
             st\<lparr>categories :=
                  (case cur_sub st of
                     None \<Rightarrow> categories st
                   | Some (i, j) \<Rightarrow>
                       if cur_group_title st = None \<or> cur_group_title st = Some []
                       then categories st
                       else (categories st)
                         [i := (categories st ! i)
                            \<lparr>subcategories := (subcategories (categories st ! i))
                               [j := (subcategories (categories st ! i) ! j)
                                  \<lparr>groups := groups (subcategories (categories st ! i) ! j)
                                     @ [\<lparr>gtitle = normalize_group_title (the (cur_group_title st)),
                                         entries = cur_entries st, gfile = []\<rparr>]\<rparr>]\<rparr>]),
                cur_group_title := None, cur_entries := []\<rparr>
         \<and> foldl step (step st raw) mid = foldl step (step st raw) (filter is_bold mid)
         \<and> parse_lines (pre @ raw # mid @ post) = parse_lines (pre @ raw # filter is_bold mid @ post)"
proof -
  have fl: "step s raw = flush_group s" for s
    using classify_numeric_heading[OF assms(1-3)] by (simp add: step_classify)
  have np: "\<not> truthy (cur_group_title (flush_group s))" for s
    by (simp add: truthy_def)
  have eq: "foldl step (step s raw) mid = foldl step (step s raw) (filter is_bold mid)" for s
    using no_pending_discards[OF np assms(4)] by (simp add: fl)
  have ex: "flush_group st =
             st\<lparr>categories :=
                  (case cur_sub st of
                     None \<Rightarrow> categories st
                   | Some (i, j) \<Rightarrow>
                       if cur_group_title st = None \<or> cur_group_title st = Some []
                       then categories st
                       else (categories st)
                         [i := (categories st ! i)
                            \<lparr>subcategories := (subcategories (categories st ! i))
                               [j := (subcategories (categories st ! i) ! j)
                                  \<lparr>groups := groups (subcategories (categories st ! i) ! j)
                                     @ [\<lparr>gtitle = normalize_group_title (the (cur_group_title st)),
                                         entries = cur_entries st, gfile = []\<rparr>]\<rparr>]\<rparr>]),
                cur_group_title := None, cur_entries := []\<rparr>"
    by (cases "cur_sub st"; cases "cur_group_title st")
       (auto simp: flush_group_def append_group_def Group_def truthy_def Let_def)
  have pl: "parse_lines (pre @ raw # mid @ post)
              = parse_lines (pre @ raw # filter is_bold mid @ post)"
    using fl eq by (simp add: parse_lines_def)
  show ?thesis
    apply (intro conjI)
       apply (rule fl)
      apply (simp only: fl)
      apply (rule ex)
     apply (rule eq)
    apply (rule pl)
    done
qed

theorem numeric_heading_flushes_only_witness:
  "BOLD_RE (strip (asc ''**10 '' @ [20998, 31867, 32454, 30446] @ asc ''**''))
     = Some (asc ''10 '' @ [20998, 31867, 32454, 30446])
   \<and> NUM_HEADING_RE (strip (asc ''10 '' @ [20998, 31867, 32454, 30446]))
   \<and> SUBCATEGORY_RE (strip (asc ''10 '' @ [20998, 31867, 32454, 30446])) = None
   \<and> \<not> is_group_heading (asc ''b'') \<and> \<not> is_group_heading (asc ''c 7'')
   \<and> step \<lparr>categories =
              [\<lparr>ctitle = [26410, 20998, 31867],
                subcategories = [\<lparr>stitle = asc ''1. s'', groups = [], sfile = []\<rparr>],
                cfile = []\<rparr>],
            cur_cat = Some 0, cur_sub = Some (0, 0),
            cur_group_title = Some (asc ''g''), cur_entries = [asc ''a'']\<rparr>
          (asc ''**10 '' @ [20998, 31867, 32454, 30446] @ asc ''**'')
       = \<lparr>categories =
            [\<lparr>ctitle = [26410, 20998, 31867],
              subcategories =
                [\<lparr>stitle = asc ''1. s'',
                  groups = [\<lparr>gtitle = asc ''g'', entries = [asc ''a''], gfile = []\<rparr>],
                  sfile = []\<rparr>],
              cfile = []\<rparr>],
          cur_cat = Some 0, cur_sub = Some (0, 0),
          cur_group_title = None, cur_entries = []\<rparr>
   \<and> parse_lines ([asc ''**1. s**'', asc ''**g**'', asc ''a'']
                   @ (asc ''**10 '' @ [20998, 31867, 32454, 30446] @ asc ''**'')
                   # [asc ''b'', asc ''c 7''] @ [asc ''**h**'', asc ''d''])
       = parse_lines ([asc ''**1. s**'', asc ''**g**'', asc ''a'']
                   @ (asc ''**10 '' @ [20998, 31867, 32454, 30446] @ asc ''**'')
                   # filter is_bold [asc ''b'', asc ''c 7''] @ [asc ''**h**'', asc ''d''])
   \<and> filter is_bold [asc ''b'', asc ''c 7''] = []
   \<and> parse_lines ([asc ''**1. s**'', asc ''**g**'', asc ''a'']
                   @ (asc ''**10 '' @ [20998, 31867, 32454, 30446] @ asc ''**'')
                   # [asc ''b'', asc ''c 7''] @ [asc ''**h**'', asc ''d''])
       = [\<lparr>ctitle = [26410, 20998, 31867],
           subcategories =
             [\<lparr>stitle = asc ''1. s'',
               groups = [\<lparr>gtitle = asc ''g'', entries = [asc ''a''], gfile = []\<rparr>,
                         \<lparr>gtitle = asc ''h'', entries = [asc ''d''], gfile = []\<rparr>],
               sfile = []\<rparr>],
           cfile = []\<rparr>]"
proof -
  let ?raw = "asc ''**10 '' @ [20998, 31867, 32454, 30446] @ asc ''**''"
  let ?g = "asc ''10 '' @ [20998, 31867, 32454, 30446]"
  let ?mid = "[asc ''b'', asc ''c 7'']"
  let ?st = "\<lparr>categories =
              [\<lparr>ctitle = [26410, 20998, 31867],
                subcategories = [\<lparr>stitle = asc ''1. s'', groups = [], sfile = []\<rparr>],
                cfile = []\<rparr>],
            cur_cat = Some 0, cur_sub = Some (0, 0),
            cur_group_title = Some (asc ''g''), cur_entries = [asc ''a'']\<rparr>"
  have h1: "BOLD_RE (strip ?raw) = Some ?g"
    by (simp add: eval_defs)
  have h2: "NUM_HEADING_RE (strip ?g)"
    by (simp add: eval_defs)
  have h3: "SUBCATEGORY_RE (strip ?g) = None"
    by (simp add: eval_defs)
  have b1: "BOLD_RE (strip (asc ''b'')) = None" and b2: "BOLD_RE (strip (asc ''c 7'')) = None"
    by (simp_all add: eval_defs)
  have h4: "\<forall>l \<in> set ?mid. \<not> is_group_heading l"
    using b1 b2 by (simp add: not_group_heading_plain)
  have h5: "filter is_bold ?mid = []"
    using b1 b2 by (simp add: is_bold_def)
  have h0: "\<not> is_group_heading (asc ''b'') \<and> \<not> is_group_heading (asc ''c 7'')"
    using h4 by simp
  note t = numeric_heading_flushes_only[OF h1 h2 h3 h4]
  have n: "normalize_group_title (asc ''g'') = asc ''g''"
    by (simp add: eval_defs)
  have s: "step ?st ?raw
       = \<lparr>categories =
            [\<lparr>ctitle = [26410, 20998, 31867],
              subcategories =
                [\<lparr>stitle = asc ''1. s'',
                  groups = [\<lparr>gtitle = asc ''g'', entries = [asc ''a''], gfile = []\<rparr>],
                  sfile = []\<rparr>],
              cfile = []\<rparr>],
          cur_cat = Some 0, cur_sub = Some (0, 0),
          cur_group_title = None, cur_entries = []\<rparr>"
    using conjunct1[OF conjunct2[OF t[of ?st]]] n by (simp add: asc_def)
  have p: "parse_lines ([asc ''**1. s**'', asc ''**g**'', asc ''a''] @ ?raw # ?mid
                        @ [asc ''**h**'', asc ''d''])
       = [\<lparr>ctitle = [26410, 20998, 31867],
           subcategories =
             [\<lparr>stitle = asc ''1. s'',
               groups = [\<lparr>gtitle = asc ''g'', entries = [asc ''a''], gfile = []\<rparr>,
                         \<lparr>gtitle = asc ''h'', entries = [asc ''d''], gfile = []\<rparr>],
               sfile = []\<rparr>],
           cfile = []\<rparr>]"
    by (simp add: eval_defs)
  show ?thesis
    using h1 h2 h3 h0 h5 s p t[of init_state "[asc ''**1. s**'', asc ''**g**'', asc ''a'']"
        "[asc ''**h**'', asc ''d'']"]
    by blast
qed

text \<open>
  Claim C4 as stated fails. The inner title of "**42 **" is "42 ", which starts with
  digits followed by a space and is not subcategory-shaped; the parser trims it to
  "42" and skips the line: the pending Group is not flushed, and the line "b" after
  it is still attached to that Group.
\<close>

theorem untrimmed_numeric_title_not_flushed:
  "BOLD_RE (strip (asc ''**42 **'')) = Some (asc ''42 '')
   \<and> NUM_HEADING_RE (asc ''42 '')
   \<and> SUBCATEGORY_RE (asc ''42 '') = None
   \<and> parse_lines [asc ''**1. s**'', asc ''**g**'', asc ''a'', asc ''**42 **'', asc ''b'']
       = [\<lparr>ctitle = [26410, 20998, 31867],
           subcategories =
             [\<lparr>stitle = asc ''1. s'',
               groups = [\<lparr>gtitle = asc ''g'', entries = [asc ''a'', asc ''b''], gfile = []\<rparr>],
               sfile = []\<rparr>],
           cfile = []\<rparr>]"
  by (simp add: eval_defs)



section \<open>Groups of the tree\<close>

lemma set_all_groups:
  "set (all_groups cats) = (\<Union>c \<in> set cats. \<Union>s \<in> set (subcategories c). set (groups s))"
  by (auto simp: all_groups_def all_subcategories_def)

lemma in_set_update: "x \<in> set (xs[i := y]) \<Longrightarrow> x \<in> set xs \<or> (i < length xs \<and> x = y)"
proof (cases "i < length xs")
  case True
  assume "x \<in> set (xs[i := y])"
  then show ?thesis using True set_update_subset_insert[of xs i y] by auto
next
  case False
  assume "x \<in> set (xs[i := y])"
  then show ?thesis using False by (simp add: list_update_beyond)
qed

lemma all_groups_append_group:
  assumes "g' \<in> set (all_groups (append_group cats p g))"
  shows "g' = g \<or> g' \<in> set (all_groups cats)"
proof -
  obtain i j where p: "p = (i, j)" by (cases p)
  define subs where "subs = subcategories (cats ! i)"
  define s' where "s' = (subs ! j)\<lparr>groups := groups (subs ! j) @ [g]\<rparr>"
  define c' where "c' = (cats ! i)\<lparr>subcategories := subs[j := s']\<rparr>"
  have ag: "append_group cats p g = cats[i := c']"
    by (simp add: append_group_def p Let_def c'_def s'_def subs_def)
  from assms obtain c s where c: "c \<in> set (cats[i := c'])"
    and s: "s \<in> set (subcategories c)" and g: "g' \<in> set (groups s)"
    unfolding ag set_all_groups by blast
  from in_set_update[OF c] show ?thesis
  proof
    assume "c \<in> set cats"
    then show ?thesis using s g unfolding set_all_groups by blast
  next
    assume a: "i < length cats \<and> c = c'"
    then have ci: "cats ! i \<in> set cats" by simp
    from a s have "s \<in> set (subs[j := s'])" by (simp add: c'_def)
    from in_set_update[OF this] show ?thesis
    proof
      assume "s \<in> set subs"
      then show ?thesis using ci g unfolding set_all_groups subs_def by blast
    next
      assume b: "j < length subs \<and> s = s'"
      then have "subs ! j \<in> set subs" by simp
      moreover have "g' = g \<or> g' \<in> set (groups (subs ! j))"
        using g b by (auto simp: s'_def)
      ultimately show ?thesis using ci unfolding set_all_groups subs_def by blast
    qed
  qed
qed

lemma all_groups_append_subcategory:
  assumes "g' \<in> set (all_groups (append_subcategory cats i (Subcategory t)))"
  shows "g' \<in> set (all_groups cats)"
proof -
  define c' where
    "c' = (cats ! i)\<lparr>subcategories := subcategories (cats ! i) @ [Subcategory t]\<rparr>"
  have ag: "append_subcategory cats i (Subcategory t) = cats[i := c']"
    by (simp add: append_subcategory_def c'_def)
  from assms obtain c s where c: "c \<in> set (cats[i := c'])"
    and s: "s \<in> set (subcategories c)" and g: "g' \<in> set (groups s)"
    unfolding ag set_all_groups by blast
  from in_set_update[OF c] show ?thesis
  proof
    assume "c \<in> set cats"
    then show ?thesis using s g unfolding set_all_groups by blast
  next
    assume a: "i < length cats \<and> c = c'"
    then have ci: "cats ! i \<in> set cats" by simp
    from a s g have "s \<in> set (subcategories (cats ! i))"
      by (auto simp: c'_def Subcategory_def)
    then show ?thesis using ci g unfolding set_all_groups by blast
  qed
qed

lemma all_groups_append_category:
  "set (all_groups (cats @ [Category t])) = set (all_groups cats)"
  by (simp add: set_all_groups Category_def)

lemma all_groups_flush:
  assumes "g \<in> set (all_groups (categories (flush_group st)))"
  shows "g \<in> set (all_groups (categories st))
         \<or> (truthy (cur_group_title st)
            \<and> g = Group (normalize_group_title (the (cur_group_title st))) (cur_entries st))"
  using assms
  by (auto simp: flush_group_categories split: option.splits if_splits
           dest: all_groups_append_group)

lemma all_groups_start_category:
  "set (all_groups (categories (start_category t st))) = set (all_groups (categories st))"
  by (simp add: start_category_def all_groups_append_category)

lemma all_groups_start_subcategory:
  assumes "g \<in> set (all_groups (categories (start_subcategory t st)))"
  shows "g \<in> set (all_groups (categories st))"
proof (cases "cur_cat st")
  case None
  then have "g \<in> set (all_groups (categories st @ [Category [26410, 20998, 31867]]))"
    using assms by (auto simp: start_subcategory_def Let_def dest: all_groups_append_subcategory)
  then show ?thesis by (simp add: all_groups_append_category)
next
  case (Some i)
  then show ?thesis
    using assms by (auto simp: start_subcategory_def Let_def dest: all_groups_append_subcategory)
qed

text \<open>
  Every Group of the tree after a step was in the tree before it or is the pending
  Group, flushed.
\<close>

lemma all_groups_step:
  assumes "g \<in> set (all_groups (categories (step st raw)))"
  shows "g \<in> set (all_groups (categories st))
         \<or> (truthy (cur_group_title st)
            \<and> g = Group (normalize_group_title (the (cur_group_title st))) (cur_entries st))"
proof (cases "classify raw")
  case (CategoryHeading t)
  then show ?thesis
    using assms all_groups_flush[of g st] by (simp add: step_classify all_groups_start_category)
next
  case (SubcategoryHeading t)
  then show ?thesis
    using assms all_groups_flush[of g st]
    by (auto simp: step_classify dest: all_groups_start_subcategory)
next
  case (GroupHeading t)
  then show ?thesis
    using assms all_groups_flush[of g st] by (simp add: step_classify)
next
  case NumericHeading
  then show ?thesis
    using assms all_groups_flush[of g st] by (simp add: step_classify)
qed (use assms in \<open>auto simp: step_classify split: if_splits\<close>)

section \<open>Titles of the Groups\<close>

lemma canon_space: "is_space (canon c) \<Longrightarrow> is_space c"
  by (auto simp: canon_def DOT_JP_def DOT_CN_def is_space_def space_points_def split: if_splits)

lemma strip_Nil_all_space: "strip s = [] \<Longrightarrow> \<forall>c \<in> set s. is_space c"
proof -
  assume "strip s = []"
  then have "dropWhile is_space (rev (dropWhile is_space s)) = []"
    by (simp add: strip_def)
  then have "\<forall>c \<in> set (dropWhile is_space s). is_space c"
    by (simp add: dropWhile_eq_Nil_conv)
  then have "dropWhile is_space s = []"
    by (metis hd_dropWhile hd_in_set)
  then show ?thesis by (simp add: dropWhile_eq_Nil_conv)
qed

lemma normalize_group_title_nonempty:
  assumes "t \<noteq> []" "stripped t" shows "normalize_group_title t \<noteq> []"
proof
  assume "normalize_group_title t = []"
  then have "\<forall>c \<in> set (map canon t). is_space c"
    using strip_Nil_all_space by (simp add: normalize_group_title_canon)
  then have "is_space (canon (hd t))" using assms(1) by simp
  then have "is_space (hd t)" by (rule canon_space)
  then show False using assms by (simp add: stripped_def)
qed

lemma classify_group_stripped: "classify raw = GroupHeading t \<Longrightarrow> stripped t"
  by (auto simp: classify_def Let_def strip_stripped split: if_splits option.splits)

lemma pending_title_step:
  assumes "cur_group_title (step st raw) = Some t"
  shows "cur_group_title st = Some t \<or> stripped t"
  using assms classify_group_stripped[of raw]
  by (cases "classify raw") (auto simp: step_classify split: if_splits)

lemma titles_step:
  assumes "\<forall>g \<in> set (all_groups (categories st)). gtitle g \<noteq> []"
    and "\<forall>t. cur_group_title st = Some t \<longrightarrow> stripped t"
  shows "(\<forall>g \<in> set (all_groups (categories (step st raw))). gtitle g \<noteq> [])
         \<and> (\<forall>t. cur_group_title (step st raw) = Some t \<longrightarrow> stripped t)"
proof (intro conjI ballI allI impI)
  fix g assume "g \<in> set (all_groups (categories (step st raw)))"
  from all_groups_step[OF this] show "gtitle g \<noteq> []"
    using assms normalize_group_title_nonempty
    by (auto simp: truthy_def Group_def split: option.splits)
next
  fix t assume "cur_group_title (step st raw) = Some t"
  from pending_title_step[OF this] show "stripped t" using assms(2) by auto
qed

lemma titles_foldl:
  assumes "\<forall>g \<in> set (all_groups (categories st)). gtitle g \<noteq> []"
    and "\<forall>t. cur_group_title st = Some t \<longrightarrow> stripped t"
  shows "(\<forall>g \<in> set (all_groups (categories (foldl step st ls))). gtitle g \<noteq> [])
         \<and> (\<forall>t. cur_group_title (foldl step st ls) = Some t \<longrightarrow> stripped t)"
  using assms
proof (induction ls arbitrary: st)
  case Nil
  then show ?case by simp
next
  case (Cons l ls)
  from titles_step[OF Cons.prems, of l] show ?case
    using Cons.IH[of "step st l"] by simp
qed

lemma classify_empty_title:
  assumes "BOLD_RE (strip raw) = Some b" "strip b = []"
  shows "classify raw = GroupHeading []"
  using assms BOLD_RE_hd[of "strip raw" b] bold_not_screenshot[of "strip raw" b]
  by (simp add: classify_def Let_def PAGE_BOLD_NUM_RE_def NUM_HEADING_RE_def SUBCATEGORY_RE_def)

text \<open>
  Claim C10. Every Group of the parsed tree has a non-empty title, for every input.
  A bold line whose stripped inner title is empty makes the empty string the pending
  title, and the flush that follows appends nothing for it. The normalization of a
  non-empty title without whitespace at its ends is never empty.
\<close>

theorem group_titles_nonempty:
  "(\<forall>g \<in> set (all_groups (parse_lines lines)). gtitle g \<noteq> [])
   \<and> (BOLD_RE (strip raw) = Some b \<and> strip b = [] \<longrightarrow>
        step st raw = (flush_group st)\<lparr>cur_group_title := Some []\<rparr>
        \<and> categories (flush_group (step st raw)) = categories (step st raw))
   \<and> (t \<noteq> [] \<and> stripped t \<longrightarrow> normalize_group_title t \<noteq> [])"
proof (intro conjI impI ballI)
  fix g assume g: "g \<in> set (all_groups (parse_lines lines))"
  have inv: "(\<forall>g \<in> set (all_groups (categories (foldl step init_state lines))). gtitle g \<noteq> [])
         \<and> (\<forall>t. cur_group_title (foldl step init_state lines) = Some t \<longrightarrow> stripped t)"
    by (rule titles_foldl) (simp_all add: init_state_def all_groups_def all_subcategories_def)
  from g all_groups_flush[of g "foldl step init_state lines"] show "gtitle g \<noteq> []"
    using inv normalize_group_title_nonempty
    by (auto simp: parse_lines_def truthy_def Group_def split: option.splits)
next
  assume a: "BOLD_RE (strip raw) = Some b \<and> strip b = []"
  then show "step st raw = (flush_group st)\<lparr>cur_group_title := Some []\<rparr>"
    using classify_empty_title[of raw b] by (simp add: step_classify)
  then show "categories (flush_group (step st raw)) = categories (step st raw)"
    by (simp add: flush_group_categories truthy_def split: option.splits)
next
  assume "t \<noteq> [] \<and> stripped t"
  then show "normalize_group_title t \<noteq> []" by (simp add: normalize_group_title_nonempty)
qed

theorem group_titles_nonempty_witness:
  "all_groups (parse_lines [asc ''**1. s**'', asc ''**g**'', asc ''a''])
     = [\<lparr>gtitle = asc ''g'', entries = [asc ''a''], gfile = []\<rparr>]
   \<and> list_all (\<lambda>g. gtitle g \<noteq> [])
         (all_groups (parse_lines [asc ''**1. s**'', asc ''**g**'', asc ''a'']))
   \<and> BOLD_RE (strip (asc ''** **'')) = Some (asc '' '') \<and> strip (asc '' '') = []
   \<and> step init_state (asc ''** **'') = (flush_group init_state)\<lparr>cur_group_title := Some []\<rparr>
   \<and> asc ''g'' \<noteq> [] \<and> stripped (asc ''g'') \<and> normalize_group_title (asc ''g'') \<noteq> []"
proof -
  have v: "all_groups (parse_lines [asc ''**1. s**'', asc ''**g**'', asc ''a''])
             = [\<lparr>gtitle = asc ''g'', entries = [asc ''a''], gfile = []\<rparr>]"
    by (simp add: eval_defs all_groups_def all_subcategories_def)
  have h1: "BOLD_RE (strip (asc ''** **'')) = Some (asc '' '') \<and> strip (asc '' '') = []"
    by (simp add: eval_defs)
  have h2: "asc ''g'' \<noteq> [] \<and> stripped (asc ''g'')"
    by (simp add: eval_defs stripped_def)
  show ?thesis
    using v h1 h2
      group_titles_nonempty[of "[asc ''**1. s**'', asc ''**g**'', asc ''a'']"
        "asc ''** **''" "asc '' ''" init_state "asc ''g''"]
    unfolding list_all_iff by blast
qed

section \<open>Entries\<close>

lemma suffix_match_space: "is_space c \<Longrightarrow> suffix_match (c # cs) = suffix_match cs"
  by (simp add: suffix_match_def)

lemma sub_page_suffix_split:
  "\<exists>suf. s = sub_page_suffix s @ suf \<and> (suf = [] \<or> suffix_match suf)"
  by (induction s) auto

lemma sub_page_suffix_Nil: "sub_page_suffix s = [] \<Longrightarrow> s = [] \<or> suffix_match s"
  by (cases s) (auto split: if_splits)

lemma sub_page_suffix_hd: "sub_page_suffix s \<noteq> [] \<Longrightarrow> hd (sub_page_suffix s) = hd s"
  by (cases s) (auto split: if_splits)

lemma sub_page_suffix_last:
  "sub_page_suffix s \<noteq> [] \<Longrightarrow> \<not> is_space (last s) \<Longrightarrow> \<not> is_space (last (sub_page_suffix s))"
proof (induction s)
  case Nil
  then show ?case by simp
next
  case (Cons c cs)
  from Cons.prems(1) have nm: "\<not> suffix_match (c # cs)" by (auto split: if_splits)
  show ?case
  proof (cases "sub_page_suffix cs = []")
    case True
    have "\<not> is_space c"
    proof (cases "cs = []")
      case True
      then show ?thesis using Cons.prems(2) by simp
    next
      case False
      then have "suffix_match cs" using sub_page_suffix_Nil[OF True] by simp
      then show ?thesis using nm suffix_match_space by blast
    qed
    then show ?thesis using nm True by simp
  next
    case False
    then have "cs \<noteq> []" by auto
    then have "\<not> is_space (last cs)" using Cons.prems(2) by simp
    from Cons.IH[OF False this] show ?thesis using nm False by simp
  qed
qed

lemma normalize_entry_good:
  assumes "normalize_entry (strip raw) \<noteq> []"
  shows "\<not> is_space (hd (normalize_entry (strip raw)))
         \<and> \<not> is_space (last (normalize_entry (strip raw)))
         \<and> (\<exists>suf. strip raw = normalize_entry (strip raw) @ suf \<and> (suf = [] \<or> suffix_match suf))"
proof -
  let ?s = "strip raw"
  let ?r = "sub_page_suffix ?s"
  from assms have ne: "normalize_entry ?s = strip ?r" and sne: "?s \<noteq> []"
    by (auto simp: normalize_entry_def Let_def strip_strip split: if_splits)
  have st: "\<not> is_space (hd ?s)" "\<not> is_space (last ?s)"
    using strip_stripped[of raw] sne by (auto simp: stripped_def)
  have rne: "?r \<noteq> []" using assms ne by (auto simp: strip_def)
  have "stripped ?r"
    using sub_page_suffix_hd[OF rne] sub_page_suffix_last[OF rne st(2)] st(1)
    by (simp add: stripped_def)
  then have eq: "normalize_entry ?s = ?r" using ne by (simp add: stripped_strip_id)
  show ?thesis
    unfolding eq
    using sub_page_suffix_hd[OF rne] sub_page_suffix_last[OF rne st(2)] st(1)
      sub_page_suffix_split[of ?s]
    by simp
qed

lemma sub_page_suffix_leftmost:
  "k < length (sub_page_suffix s) \<Longrightarrow> \<not> suffix_match (drop k s)"
proof (induction s arbitrary: k)
  case Nil
  then show ?case by simp
next
  case (Cons c cs)
  from Cons.prems have nm: "\<not> suffix_match (c # cs)" by (auto split: if_splits)
  show ?case
  proof (cases k)
    case 0
    then show ?thesis using nm by simp
  next
    case (Suc k')
    then have "k' < length (sub_page_suffix cs)" using Cons.prems nm by simp
    from Cons.IH[OF this] show ?thesis using Suc by simp
  qed
qed

lemma digits_suffix_match:
  assumes "D \<noteq> []" "\<forall>x \<in> set D. is_digit x" shows "suffix_match D"
proof -
  have "\<not> is_space (hd D)" using assms digit_not_space by (cases D) auto
  then have a: "dropWhile is_space D = D" using assms(1) by (cases D) auto
  have b: "dropWhile is_digit D = []" using assms(2) by simp
  show ?thesis unfolding suffix_match_def Let_def a b using assms(1) by simp
qed

lemma suffix_match_shape:
  assumes "suffix_match t" "\<not> is_space (last t)"
  shows "\<exists>W D. t = W @ D \<and> (\<forall>x \<in> set W. is_space x) \<and> D \<noteq> [] \<and> (\<forall>x \<in> set D. is_digit x)"
proof -
  define r where "r = dropWhile is_space t"
  define r2 where "r2 = dropWhile is_digit r"
  from assms(1) have ne: "r \<noteq> r2" and sp: "\<forall>x \<in> set r2. is_space x"
    by (simp_all add: suffix_match_def r_def r2_def Let_def dropWhile_eq_Nil_conv)
  have t: "t = takeWhile is_space t @ r" by (simp add: r_def)
  have r: "r = takeWhile is_digit r @ r2" by (simp add: r2_def)
  have "r2 = []"
  proof (rule ccontr)
    assume n: "r2 \<noteq> []"
    then have "last t = last r2" using t r by (metis last_appendR append_is_Nil_conv)
    then show False using sp n assms(2) by (metis last_in_set)
  qed
  then have "\<forall>x \<in> set r. is_digit x" using r by (metis append_Nil2 set_takeWhileD)
  moreover have "r \<noteq> []" using ne \<open>r2 = []\<close> by simp
  moreover have "\<forall>x \<in> set (takeWhile is_space t). is_space x" by (auto dest: set_takeWhileD)
  ultimately show ?thesis using t by blast
qed

lemma cut_page_number_append:
  assumes "\<forall>x \<in> set W. is_space x" "\<forall>x \<in> set D. is_digit x"
    and "P = [] \<or> (\<not> is_space (last P) \<and> (W = [] \<longrightarrow> \<not> is_digit (last P)))"
  shows "cut_page_number (P @ W @ D) = P"
proof -
  have d: "dropWhile is_digit (rev D @ rev W @ rev P) = dropWhile is_digit (rev W @ rev P)"
    using assms(2) by (simp add: dropWhile_append)
  have "dropWhile is_space (dropWhile is_digit (rev W @ rev P)) = rev P"
  proof (cases "W = []")
    case True
    show ?thesis
    proof (cases "P = []")
      case True
      then show ?thesis using \<open>W = []\<close> by simp
    next
      case False
      then have "\<not> is_digit (hd (rev P))" "\<not> is_space (hd (rev P))"
        using assms(3) True by (simp_all add: hd_rev)
      moreover have "rev P \<noteq> []" using False by simp
      ultimately show ?thesis using True by (cases "rev P") auto
    qed
  next
    case False
    then have "\<not> is_digit (hd (rev W))"
      using assms(1) digit_not_space by (metis hd_rev last_in_set)
    then have "dropWhile is_digit (rev W @ rev P) = rev W @ rev P"
      using False by (cases "rev W") auto
    moreover have "dropWhile is_space (rev W @ rev P) = dropWhile is_space (rev P)"
      using assms(1) by (simp add: dropWhile_append)
    moreover have "dropWhile is_space (rev P) = rev P"
    proof (cases "P = []")
      case True then show ?thesis by simp
    next
      case False
      then have "\<not> is_space (hd (rev P))" using assms(3) by (simp add: hd_rev)
      then show ?thesis using False by (cases "rev P") auto
    qed
    ultimately show ?thesis by simp
  qed
  then show ?thesis using d by (simp add: cut_page_number_def)
qed

lemma sub_page_suffix_cut:
  assumes "s = [] \<or> \<not> is_space (last s)"
  shows "sub_page_suffix s = cut_page_number s"
proof -
  let ?r = "sub_page_suffix s"
  from sub_page_suffix_split[of s] obtain suf
    where s: "s = ?r @ suf" and suf: "suf = [] \<or> suffix_match suf" by blast
  have rl: "?r = [] \<or> \<not> is_space (last ?r)"
    using sub_page_suffix_last[of s] assms by (cases "s = []") auto
  have nodigit: "\<not> suffix_match (last ?r # D)" if "?r \<noteq> []" "s = ?r @ D" for D
  proof -
    have k: "length ?r - 1 < length ?r" using that(1) by simp
    have "drop (length ?r - 1) s = drop (length ?r - 1) ?r @ D"
      using that(2) by (metis drop_append diff_is_0_eq' drop0 diff_le_self)
    also have "drop (length ?r - 1) ?r = [last ?r]"
      using that(1) by (metis append_butlast_last_id append_eq_conv_conj length_butlast)
    finally show ?thesis using sub_page_suffix_leftmost[OF k] by simp
  qed
  show ?thesis
  proof (cases "suf = []")
    case True
    then have eq: "s = ?r" using s by simp
    have "?r = [] \<or> (\<not> is_space (last ?r) \<and> \<not> is_digit (last ?r))"
    proof (cases "?r = []")
      case True then show ?thesis by simp
    next
      case False
      have "\<not> suffix_match [last ?r]" using nodigit[OF False, of "[]"] eq by simp
      then have "\<not> is_digit (last ?r)" using digits_suffix_match[of "[last ?r]"] by auto
      then show ?thesis using rl False by simp
    qed
    then have "cut_page_number (?r @ [] @ []) = ?r"
      by (intro cut_page_number_append) auto
    then show ?thesis using eq by simp
  next
    case False
    then have sm: "suffix_match suf" using suf by simp
    have "last s = last suf" using s False by (metis last_appendR)
    moreover have "s \<noteq> []" using s False by auto
    ultimately have "\<not> is_space (last suf)" using assms by simp
    from suffix_match_shape[OF sm this] obtain W D where wd: "suf = W @ D"
      and W: "\<forall>x \<in> set W. is_space x" and D: "D \<noteq> []" "\<forall>x \<in> set D. is_digit x" by blast
    have "?r = [] \<or> (\<not> is_space (last ?r) \<and> (W = [] \<longrightarrow> \<not> is_digit (last ?r)))"
    proof (cases "?r = []")
      case True then show ?thesis by simp
    next
      case rne: False
      have "\<not> is_digit (last ?r)" if "W = []"
      proof
        assume dg: "is_digit (last ?r)"
        have "s = ?r @ D" using s wd that by simp
        from nodigit[OF rne this] show False
          using digits_suffix_match[of "last ?r # D"] dg D by auto
      qed
      then show ?thesis using rl rne by simp
    qed
    from cut_page_number_append[OF W D(2) this] show ?thesis using s wd by simp
  qed
qed

lemma normalize_entry_cut:
  assumes "normalize_entry (strip raw) \<noteq> []"
  shows "normalize_entry (strip raw) = cut_page_number (strip raw)"
proof -
  let ?s = "strip raw"
  from assms have ne: "normalize_entry ?s = strip (sub_page_suffix ?s)" and sne: "?s \<noteq> []"
    by (auto simp: normalize_entry_def Let_def strip_strip split: if_splits)
  have "\<not> is_space (last ?s)" using strip_stripped[of raw] sne by (auto simp: stripped_def)
  then have c: "sub_page_suffix ?s = cut_page_number ?s" by (simp add: sub_page_suffix_cut)
  from normalize_entry_good[OF assms] have "stripped (normalize_entry ?s)"
    by (simp add: stripped_def)
  then have "stripped (strip (sub_page_suffix ?s))" using ne by simp
  have "normalize_entry ?s = sub_page_suffix ?s"
  proof -
    have rne: "sub_page_suffix ?s \<noteq> []" using assms ne by (auto simp: strip_def)
    have "stripped (sub_page_suffix ?s)"
      using sub_page_suffix_hd[OF rne] sub_page_suffix_last[OF rne \<open>\<not> is_space (last ?s)\<close>]
        strip_stripped[of raw] sne
      by (simp add: stripped_def)
    then show ?thesis using ne by (simp add: stripped_strip_id)
  qed
  then show ?thesis using c by simp
qed

lemma set_all_entries:
  "set (all_entries cats) = (\<Union>g \<in> set (all_groups cats). set (entries g))"
  by (auto simp: all_entries_def)

lemma cur_entries_step:
  assumes "e \<in> set (cur_entries (step st raw))"
  shows "e \<in> set (cur_entries st) \<or> (e = normalize_entry (strip raw) \<and> e \<noteq> [])"
proof (cases "classify raw")
  case (EntryLine x)
  then have "x = strip raw"
    by (auto simp: classify_def Let_def split: if_splits option.splits)
  then show ?thesis using assms EntryLine by (auto simp: step_classify split: if_splits)
qed (use assms in \<open>auto simp: step_classify\<close>)

lemma entries_step:
  assumes "\<forall>e \<in> set (all_entries (categories st)) \<union> set (cur_entries st). Q e"
    and "normalize_entry (strip raw) \<noteq> [] \<longrightarrow> Q (normalize_entry (strip raw))"
  shows "\<forall>e \<in> set (all_entries (categories (step st raw))) \<union> set (cur_entries (step st raw)). Q e"
proof
  fix e
  assume "e \<in> set (all_entries (categories (step st raw))) \<union> set (cur_entries (step st raw))"
  then show "Q e"
  proof
    assume "e \<in> set (all_entries (categories (step st raw)))"
    then obtain g where g: "g \<in> set (all_groups (categories (step st raw)))"
      and e: "e \<in> set (entries g)" unfolding set_all_entries by blast
    from all_groups_step[OF g] show "Q e"
      using e assms(1) unfolding set_all_entries by (auto simp: Group_def)
  next
    assume "e \<in> set (cur_entries (step st raw))"
    from cur_entries_step[OF this] show "Q e" using assms by auto
  qed
qed

lemma entries_foldl:
  assumes "\<forall>e \<in> set (all_entries (categories st)) \<union> set (cur_entries st). Q e"
    and "\<forall>raw \<in> set ls. normalize_entry (strip raw) \<noteq> [] \<longrightarrow> Q (normalize_entry (strip raw))"
  shows "\<forall>e \<in> set (all_entries (categories (foldl step st ls)))
             \<union> set (cur_entries (foldl step st ls)). Q e"
  using assms
proof (induction ls arbitrary: st)
  case Nil
  then show ?case by simp
next
  case (Cons l ls)
  have "\<forall>e \<in> set (all_entries (categories (step st l))) \<union> set (cur_entries (step st l)). Q e"
    using entries_step[OF Cons.prems(1), of l] Cons.prems(2) by simp
  from Cons.IH[OF this] show ?case using Cons.prems(2) by simp
qed

lemma entries_parse_lines:
  assumes "\<forall>raw \<in> set ls. normalize_entry (strip raw) \<noteq> [] \<longrightarrow> Q (normalize_entry (strip raw))"
  shows "\<forall>e \<in> set (all_entries (parse_lines ls)). Q e"
proof
  fix e assume "e \<in> set (all_entries (parse_lines ls))"
  then obtain g where g: "g \<in> set (all_groups (categories (flush_group (foldl step init_state ls))))"
    and e: "e \<in> set (entries g)" unfolding set_all_entries parse_lines_def by blast
  have inv: "\<forall>e \<in> set (all_entries (categories (foldl step init_state ls)))
             \<union> set (cur_entries (foldl step init_state ls)). Q e"
    by (rule entries_foldl[OF _ assms])
       (simp add: init_state_def all_entries_def all_groups_def all_subcategories_def)
  from all_groups_flush[OF g] show "Q e"
    using e inv unfolding set_all_entries by (auto simp: Group_def)
qed

text \<open>
  Claim C2, amended. Every Entry of the parsed tree is non-empty, starts and ends
  with a code point that is no whitespace, and is exactly a stripped input line
  without the digits that end it and the whitespace before them: when the stripped
  line ends with a digit, that whole run of digits is always removed, and nothing
  else is. What is removed is nothing or one match of the page-number pattern. The
  Entry that remains may itself end with whitespace followed by digits, when the
  line carried a second number.
\<close>

theorem entries_normalized:
  "\<forall>e \<in> set (all_entries (parse_lines lines)).
     e \<noteq> [] \<and> \<not> is_space (hd e) \<and> \<not> is_space (last e)
     \<and> (\<exists>raw \<in> set lines.
           e = cut_page_number (strip raw)
           \<and> (\<exists>suf. strip raw = e @ suf \<and> (suf = [] \<or> suffix_match suf)))"
  by (rule entries_parse_lines) (use normalize_entry_good normalize_entry_cut in blast)

theorem entries_normalized_witness:
  "all_entries (parse_lines [asc ''**1. s**'', asc ''**g**'', asc ''  b 12 '', asc ''7'']) = [asc ''b'']
   \<and> cut_page_number (strip (asc ''  b 12 '')) = asc ''b''
   \<and> asc ''b'' \<noteq> [] \<and> \<not> is_space (hd (asc ''b'')) \<and> \<not> is_space (last (asc ''b''))
   \<and> (\<exists>raw \<in> set [asc ''**1. s**'', asc ''**g**'', asc ''  b 12 '', asc ''7''].
        asc ''b'' = cut_page_number (strip raw)
        \<and> (\<exists>suf. strip raw = asc ''b'' @ suf \<and> (suf = [] \<or> suffix_match suf)))"
proof -
  have v: "all_entries (parse_lines [asc ''**1. s**'', asc ''**g**'', asc ''  b 12 '', asc ''7''])
          = [asc ''b'']"
    by (simp add: eval_defs all_entries_def all_groups_def all_subcategories_def)
  have c: "cut_page_number (strip (asc ''  b 12 '')) = asc ''b''"
    by (simp add: eval_defs cut_page_number_def)
  have "asc ''b'' \<in> set (all_entries
               (parse_lines [asc ''**1. s**'', asc ''**g**'', asc ''  b 12 '', asc ''7'']))"
    using v by simp
  from bspec[OF entries_normalized this] v c show ?thesis by blast
qed

text \<open>
  Claim C2 as stated fails: the line "a 1 2" under a Group gives the Entry "a 1",
  which ends with whitespace followed by a digit. Only the last number is cut.
\<close>

theorem entry_keeps_page_suffix:
  "all_entries (parse_lines [asc ''**1. s**'', asc ''**g**'', asc ''a 1 2'']) = [asc ''a 1'']
   \<and> has_page_suffix (asc ''a 1'')"
  by (simp add: eval_defs all_entries_def all_groups_def all_subcategories_def has_page_suffix_def)

section \<open>Titles of the Categories and Subcategories\<close>

lemma update_same_map: "(map f xs)[j := f (xs ! j)] = map f xs"
proof (cases "j < length xs")
  case True
  then have "(map f xs)[j := f (xs ! j)] = (map f xs)[j := map f xs ! j]" by simp
  then show ?thesis by (simp only: list_update_id)
next
  case False
  then show ?thesis by (simp add: list_update_beyond)
qed

lemma skeleton_append_group: "skeleton (append_group cats p g) = skeleton cats"
proof -
  obtain i j where p: "p = (i, j)" by (cases p)
  define subs where "subs = subcategories (cats ! i)"
  have "map stitle (subs[j := (subs ! j)\<lparr>groups := groups (subs ! j) @ [g]\<rparr>]) = map stitle subs"
    using update_same_map[of stitle subs j] by (simp add: map_update)
  then have "skeleton (append_group cats p g)
               = (skeleton cats)[i := (ctitle (cats ! i), map stitle (subcategories (cats ! i)))]"
    by (simp add: skeleton_def append_group_def p Let_def map_update subs_def)
  also have "\<dots> = skeleton cats"
    unfolding skeleton_def
    using update_same_map[of "\<lambda>c. (ctitle c, map stitle (subcategories c))" cats i] by simp
  finally show ?thesis .
qed

lemma skeleton_flush_group: "skeleton (categories (flush_group st)) = skeleton (categories st)"
  by (simp add: flush_group_categories skeleton_append_group split: option.splits)

lemma skeleton_start_category:
  "skeleton (categories (start_category t st)) = skeleton (categories st) @ [(t, [])]"
  by (simp add: start_category_def skeleton_def Category_def)

lemma skeleton_append_subcategory:
  "skeleton (append_subcategory cats i s) =
     (skeleton cats)[i := (ctitle (cats ! i), map stitle (subcategories (cats ! i)) @ [stitle s])]"
  by (simp add: skeleton_def append_subcategory_def map_update)

lemma skeleton_start_subcategory_None:
  "cur_cat st = None \<Longrightarrow>
   skeleton (categories (start_subcategory t st))
     = skeleton (categories st) @ [([26410, 20998, 31867], [t])]"
proof -
  assume c: "cur_cat st = None"
  let ?cats = "categories st @ [Category [26410, 20998, 31867]]"
  have "categories (start_subcategory t st)
          = append_subcategory ?cats (length (categories st)) (Subcategory t)"
    using c by (simp add: start_subcategory_def Let_def)
  moreover have "?cats ! length (categories st) = Category [26410, 20998, 31867]"
    by simp
  moreover have "skeleton ?cats = skeleton (categories st) @ [([26410, 20998, 31867], [])]"
    by (simp add: skeleton_def Category_def)
  moreover have "length (categories st) = length (skeleton (categories st))"
    by (simp add: skeleton_def)
  ultimately have "skeleton (categories (start_subcategory t st))
          = (skeleton (categories st) @ [([26410, 20998, 31867], [])])
              [length (skeleton (categories st)) := ([26410, 20998, 31867], [t])]"
    by (simp only: skeleton_append_subcategory)
       (simp add: Category_def Subcategory_def)
  then show ?thesis by (simp only: list_update_length)
qed

lemma skeleton_start_subcategory_Some:
  "cur_cat st = Some i \<Longrightarrow> i < length (categories st) \<Longrightarrow>
   skeleton (categories (start_subcategory t st))
     = (skeleton (categories st))[i := (fst (skeleton (categories st) ! i),
                                         snd (skeleton (categories st) ! i) @ [t])]"
  by (simp add: start_subcategory_def Let_def skeleton_append_subcategory Subcategory_def)
     (simp add: skeleton_def)

lemma skeleton_start_subcategory_beyond:
  "cur_cat st = Some i \<Longrightarrow> \<not> i < length (categories st) \<Longrightarrow>
   skeleton (categories (start_subcategory t st)) = skeleton (categories st)"
  by (simp add: start_subcategory_def Let_def append_subcategory_def list_update_beyond)

lemma start_subcategory_cur_cat:
  "cur_cat (start_subcategory t st) =
     (case cur_cat st of None \<Rightarrow> Some (length (categories st)) | Some i \<Rightarrow> Some i)"
  by (simp add: start_subcategory_def Let_def split: option.splits)

text \<open>
  As long as no Category heading has been read, the tree is empty or holds the one
  synthesized Category, with one Subcategory per Subcategory heading read.
\<close>

lemma before_first_category:
  assumes "\<forall>l \<in> set pre. \<not> is_category_heading l"
  shows "let st = foldl step init_state pre; k = length (filter is_subcategory_heading pre)
         in if k = 0 then skeleton (categories st) = [] \<and> cur_cat st = None
            else cur_cat st = Some 0
                 \<and> (\<exists>ts. skeleton (categories st) = [([26410, 20998, 31867], ts)] \<and> length ts = k)"
  using assms
proof (induction pre rule: rev_induct)
  case Nil
  then show ?case by (simp add: init_state_def skeleton_def)
next
  case (snoc l pre)
  define st where "st = foldl step init_state pre"
  define k where "k = length (filter is_subcategory_heading pre)"
  have IH: "if k = 0 then skeleton (categories st) = [] \<and> cur_cat st = None
            else cur_cat st = Some 0
                 \<and> (\<exists>ts. skeleton (categories st) = [([26410, 20998, 31867], ts)] \<and> length ts = k)"
    using snoc unfolding st_def k_def by (simp add: Let_def)
  have nc: "\<not> is_category_heading l" using snoc.prems by simp
  have goal: "if k' = 0 then skeleton (categories (step st l)) = [] \<and> cur_cat (step st l) = None
            else cur_cat (step st l) = Some 0
                 \<and> (\<exists>ts. skeleton (categories (step st l)) = [([26410, 20998, 31867], ts)]
                          \<and> length ts = k')"
    if k': "k' = (if is_subcategory_heading l then k + 1 else k)" for k'
  proof (cases "classify l")
    case (SubcategoryHeading t)
    then have sh: "is_subcategory_heading l" by (simp add: is_subcategory_heading_def)
    have st': "step st l = start_subcategory t (flush_group st)"
      using SubcategoryHeading by (simp add: step_classify)
    show ?thesis
    proof (cases "k = 0")
      case True
      then have "cur_cat (flush_group st) = None" "skeleton (categories (flush_group st)) = []"
        using IH by (simp_all add: skeleton_flush_group)
      then show ?thesis
        using skeleton_start_subcategory_None[of "flush_group st" t] True sh k'
        by (simp add: st' start_subcategory_cur_cat skeleton_def)
    next
      case False
      then obtain ts where c: "cur_cat (flush_group st) = Some 0"
        and sk: "skeleton (categories (flush_group st)) = [([26410, 20998, 31867], ts)]"
        and len: "length ts = k"
        using IH by (auto simp: skeleton_flush_group)
      from sk have "0 < length (categories (flush_group st))" by (auto simp: skeleton_def)
      from skeleton_start_subcategory_Some[OF c this, of t] show ?thesis
        using sk len c sh k' by (simp add: st' start_subcategory_cur_cat)
    qed
  next
    case (CategoryHeading t)
    then show ?thesis using nc by (simp add: is_category_heading_def)
  qed (use IH k' in \<open>auto simp: step_classify is_subcategory_heading_def skeleton_flush_group\<close>)
  show ?case
  proof (cases "is_subcategory_heading l")
    case True
    then show ?thesis using goal[of "k + 1"] unfolding st_def k_def by (simp add: Let_def)
  next
    case False
    then show ?thesis using goal[of k] unfolding st_def k_def by (simp add: Let_def)
  qed
qed

text \<open>Later lines only add to the titles that are there.\<close>

lemma skeleton_step_keeps:
  assumes "skeleton (categories st) = (u, ts @ t # ts') # rest"
  shows "\<exists>ts'' rest'. skeleton (categories (step st l)) = (u, ts @ t # ts'') # rest'"
proof (cases "classify l")
  case (SubcategoryHeading x)
  have fl: "skeleton (categories (flush_group st)) = (u, ts @ t # ts') # rest"
    using assms by (simp add: skeleton_flush_group)
  have st': "step st l = start_subcategory x (flush_group st)"
    using SubcategoryHeading by (simp add: step_classify)
  show ?thesis
  proof (cases "cur_cat (flush_group st)")
    case None
    from skeleton_start_subcategory_None[OF this, of x] show ?thesis
      using fl by (simp add: st')
  next
    case (Some i)
    show ?thesis
    proof (cases "i < length (categories (flush_group st))")
      case True
      from skeleton_start_subcategory_Some[OF Some True, of x] show ?thesis
        using fl by (cases i) (simp_all add: st')
    next
      case False
      from skeleton_start_subcategory_beyond[OF Some False, of x] show ?thesis
        using fl by (simp add: st')
    qed
  qed
qed (use assms in \<open>auto simp: step_classify skeleton_flush_group skeleton_start_category\<close>)

lemma skeleton_foldl_keeps:
  assumes "skeleton (categories st) = (u, ts @ t # ts') # rest"
  shows "\<exists>ts'' rest'. skeleton (categories (foldl step st ls)) = (u, ts @ t # ts'') # rest'"
  using assms
proof (induction ls arbitrary: st ts' rest)
  case Nil
  then show ?case by simp
next
  case (Cons l ls)
  from skeleton_step_keeps[OF Cons.prems, of l] obtain ts'' rest'
    where "skeleton (categories (step st l)) = (u, ts @ t # ts'') # rest'" by blast
  from Cons.IH[OF this] show ?case by simp
qed

text \<open>
  Claim C3, amended. When a bold line whose trimmed inner title is
  subcategory-shaped comes before every Category heading, the first Category of the parsed tree is the synthesized
  one, titled with the three code points 26410, 20998, 31867 (the Chinese word for
  "unclassified"), and it holds the Subcategory of that line, titled with the digits,
  ". " and the stripped name, at the position given by the number of Subcategory
  headings before it.
\<close>

theorem subcategory_before_category:
  assumes "\<forall>l \<in> set pre. \<not> is_category_heading l"
    and "BOLD_RE (strip raw) = Some g"
    and "SUBCATEGORY_RE (strip g) = Some (n, name)"
  shows "let tree = parse_lines (pre @ raw # post);
             k = length (filter is_subcategory_heading pre)
         in tree \<noteq> []
            \<and> ctitle (hd tree) = [26410, 20998, 31867]
            \<and> k < length (subcategories (hd tree))
            \<and> stitle (subcategories (hd tree) ! k) = n @ asc ''. '' @ strip name"
proof -
  define T where "T = n @ asc ''. '' @ strip name"
  define k where "k = length (filter is_subcategory_heading pre)"
  have cl: "classify raw = SubcategoryHeading T"
    using classify_subcategory[OF assms(2,3)] by (simp add: T_def)
  then have sh: "is_subcategory_heading raw" "\<not> is_category_heading raw"
    by (simp_all add: is_subcategory_heading_def is_category_heading_def)
  have "\<forall>l \<in> set (pre @ [raw]). \<not> is_category_heading l" using assms(1) sh by simp
  from before_first_category[OF this] obtain ts
    where sk: "skeleton (categories (foldl step init_state (pre @ [raw])))
                 = [([26410, 20998, 31867], ts)]" and len: "length ts = k + 1"
    using sh by (auto simp: Let_def k_def)
  define st where "st = foldl step init_state pre"
  have run: "foldl step init_state (pre @ [raw]) = start_subcategory T (flush_group st)"
    using cl by (simp add: step_classify st_def)
  have sk': "skeleton (categories (start_subcategory T (flush_group st)))
               = [([26410, 20998, 31867], ts)]"
    using sk unfolding run .
  have sk0: "\<exists>ts0. ts = ts0 @ [T] \<and> length ts0 = k"
  proof -
    from before_first_category[OF assms(1)]
    have IH: "if k = 0 then skeleton (categories st) = [] \<and> cur_cat st = None
            else cur_cat st = Some 0
                 \<and> (\<exists>ts. skeleton (categories st) = [([26410, 20998, 31867], ts)] \<and> length ts = k)"
      by (simp add: Let_def st_def k_def)
    show ?thesis
    proof (cases "k = 0")
      case True
      then have "cur_cat (flush_group st) = None" "skeleton (categories (flush_group st)) = []"
        using IH by (simp_all add: skeleton_flush_group)
      then show ?thesis
        using skeleton_start_subcategory_None[of "flush_group st" T] True sk'
        by simp
    next
      case False
      then obtain ts0 where c: "cur_cat (flush_group st) = Some 0"
        and sk1: "skeleton (categories (flush_group st)) = [([26410, 20998, 31867], ts0)]"
        and len0: "length ts0 = k"
        using IH by (auto simp: skeleton_flush_group)
      from sk1 have "0 < length (categories (flush_group st))" by (auto simp: skeleton_def)
      from skeleton_start_subcategory_Some[OF c this, of T] show ?thesis
        using sk1 len0 sk' by simp
    qed
  qed
  then obtain ts0 where ts: "ts = ts0 @ [T]" and len0: "length ts0 = k" by blast
  have "skeleton (categories (foldl step init_state (pre @ [raw])))
          = ([26410, 20998, 31867], ts0 @ T # []) # []"
    using sk ts by simp
  from skeleton_foldl_keeps[OF this, of post] obtain ts'' rest'
    where "skeleton (categories (foldl step (foldl step init_state (pre @ [raw])) post))
             = ([26410, 20998, 31867], ts0 @ T # ts'') # rest'" by blast
  then have fin: "skeleton (parse_lines (pre @ raw # post))
                    = ([26410, 20998, 31867], ts0 @ T # ts'') # rest'"
    by (simp add: parse_lines_def skeleton_flush_group)
  define tree where "tree = parse_lines (pre @ raw # post)"
  from fin have ne: "tree \<noteq> []" by (auto simp: skeleton_def tree_def)
  from fin ne have h: "ctitle (hd tree) = [26410, 20998, 31867]"
    "map stitle (subcategories (hd tree)) = ts0 @ T # ts''"
    unfolding tree_def by (cases "parse_lines (pre @ raw # post)"; simp add: skeleton_def)+
  from h(2) have "length (subcategories (hd tree)) = length (ts0 @ T # ts'')"
    by (metis length_map)
  then have lk: "k < length (subcategories (hd tree))" using len0 by simp
  have "stitle (subcategories (hd tree) ! k) = map stitle (subcategories (hd tree)) ! k"
    using lk by simp
  also have "\<dots> = T" using h(2) len0 by (simp add: nth_append)
  finally show ?thesis
    using ne h(1) lk unfolding tree_def k_def T_def by (simp add: Let_def)
qed

theorem subcategory_before_category_witness:
  "\<not> is_category_heading (asc ''**3. a**'') \<and> \<not> is_category_heading (asc ''**g**'')
   \<and> BOLD_RE (strip (asc ''**1.  s **'')) = Some (asc ''1.  s '')
   \<and> SUBCATEGORY_RE (strip (asc ''1.  s '')) = Some (asc ''1'', asc ''s'')
   \<and> length (filter is_subcategory_heading [asc ''**3. a**'', asc ''**g**'']) = 1
   \<and> (let tree = parse_lines ([asc ''**3. a**'', asc ''**g**''] @ asc ''**1.  s **'' # [asc ''**h**'']);
           k = length (filter is_subcategory_heading [asc ''**3. a**'', asc ''**g**''])
       in tree \<noteq> []
          \<and> ctitle (hd tree) = [26410, 20998, 31867]
          \<and> k < length (subcategories (hd tree))
          \<and> stitle (subcategories (hd tree) ! k) = asc ''1'' @ asc ''. '' @ strip (asc ''s''))"
proof -
  have c1: "classify (asc ''**3. a**'') = SubcategoryHeading (asc ''3. a'')"
    by (simp add: classify_def eval_defs)
  have c2: "classify (asc ''**g**'') = GroupHeading (asc ''g'')"
    by (simp add: classify_def eval_defs)
  have h1: "\<forall>l \<in> set [asc ''**3. a**'', asc ''**g**'']. \<not> is_category_heading l"
    using c1 c2 by (simp add: is_category_heading_def)
  have h2: "BOLD_RE (strip (asc ''**1.  s **'')) = Some (asc ''1.  s '')"
    by (simp add: eval_defs)
  have h3: "SUBCATEGORY_RE (strip (asc ''1.  s '')) = Some (asc ''1'', asc ''s'')"
    by (simp add: eval_defs)
  have h4: "length (filter is_subcategory_heading [asc ''**3. a**'', asc ''**g**'']) = 1"
    using c1 c2 by (simp add: is_subcategory_heading_def)
  have h0: "\<not> is_category_heading (asc ''**3. a**'') \<and> \<not> is_category_heading (asc ''**g**'')"
    using h1 by simp
  show ?thesis
    using h0 h2 h3 h4 subcategory_before_category[OF h1 h2 h3, of "[asc ''**h**'']"]
    by blast
qed

text \<open>
  Claim C3 as stated fails in two places. The synthesized Category is titled with
  the three code points above, not with the English word. And the pattern is matched
  against the trimmed inner title: the inner title of "**1. **" is "1. ", which
  matches the pattern, but trimmed it is "1.", which does not; the line is a Group
  heading and no Category is synthesized.
\<close>

theorem unclassified_title_is_chinese:
  "map ctitle (parse_lines [asc ''**1. s**'']) = [[26410, 20998, 31867]]
   \<and> map ctitle (parse_lines [asc ''**1. s**'']) \<noteq> [asc ''unclassified'']
   \<and> BOLD_RE (strip (asc ''**1. **'')) = Some (asc ''1. '')
   \<and> SUBCATEGORY_RE (asc ''1. '') = Some (asc ''1'', asc '' '')
   \<and> parse_lines [asc ''**1. **''] = []"
  by (simp add: eval_defs)

section \<open>Filenames\<close>

lemma decimal_digits: "\<forall>c \<in> set (decimal n). ascii_digit c"
proof (induction n rule: decimal.induct)
  case (1 n)
  show ?case
  proof (cases "n < 10")
    case True
    then show ?thesis by (subst decimal.simps) (simp add: ascii_digit_def)
  next
    case False
    have "n mod 10 < 10" by simp
    then have "ascii_digit (48 + n mod 10)" unfolding ascii_digit_def by linarith
    then show ?thesis using 1[OF False] False by (subst decimal.simps) simp
  qed
qed

lemma decimal_value_snoc: "decimal_value (xs @ [c]) = 10 * decimal_value xs + (c - 48)"
  by (simp add: decimal_value_def)

lemma decimal_value_decimal: "decimal_value (decimal n) = n"
proof (induction n rule: decimal.induct)
  case (1 n)
  show ?case
  proof (cases "n < 10")
    case True
    then show ?thesis by (subst decimal.simps) (simp add: decimal_value_def)
  next
    case False
    then show ?thesis
      using 1[OF False] by (subst decimal.simps) (simp add: decimal_value_snoc)
  qed
qed

lemma decimal_value_zeros: "decimal_value (replicate k 48 @ xs) = decimal_value xs"
  by (induction k) (simp_all add: decimal_value_def)

lemma decimal_value_fmt_d: "decimal_value (fmt_d w n) = n"
  by (simp add: fmt_d_def decimal_value_zeros decimal_value_decimal)

lemma fmt_d_digits: "\<forall>c \<in> set (fmt_d w n). ascii_digit c"
  using decimal_digits[of n] by (auto simp: fmt_d_def ascii_digit_def)

lemma fmt_d_inj: "fmt_d w n = fmt_d w' m \<Longrightarrow> n = m"
  by (metis decimal_value_fmt_d)

lemma digits_then:
  assumes "\<forall>c \<in> set A. ascii_digit c" "\<not> ascii_digit x"
  shows "takeWhile ascii_digit (A @ x # r) = A" "dropWhile ascii_digit (A @ x # r) = x # r"
  using assms by (simp_all add: takeWhile_append2 dropWhile_append2)

lemma digits_split:
  assumes "A @ x # r = B @ y # q"
    and "\<forall>c \<in> set A. ascii_digit c" "\<not> ascii_digit x"
    and "\<forall>c \<in> set B. ascii_digit c" "\<not> ascii_digit y"
  shows "A = B \<and> x = y \<and> r = q"
proof -
  have "takeWhile ascii_digit (A @ x # r) = takeWhile ascii_digit (B @ y # q)"
       "dropWhile ascii_digit (A @ x # r) = dropWhile ascii_digit (B @ y # q)"
    using assms(1) by simp_all
  then show ?thesis
    using digits_then[OF assms(2,3)] digits_then[OF assms(4,5)] by simp
qed

lemma cat_file_inj: "cat_file i = cat_file i' \<Longrightarrow> i = i'"
proof -
  assume "cat_file i = cat_file i'"
  then have "fmt_d 2 i @ 46 # asc ''html'' = fmt_d 2 i' @ 46 # asc ''html''"
    by (simp add: cat_file_def asc_def)
  from digits_split[OF this fmt_d_digits _ fmt_d_digits] show ?thesis
    using fmt_d_inj by (simp add: ascii_digit_def)
qed

lemma group_file_inj: "group_file i = group_file i' \<Longrightarrow> i = i'"
proof -
  assume "group_file i = group_file i'"
  then have "fmt_d 4 i @ 46 # asc ''html'' = fmt_d 4 i' @ 46 # asc ''html''"
    by (simp add: group_file_def asc_def)
  from digits_split[OF this fmt_d_digits _ fmt_d_digits] show ?thesis
    using fmt_d_inj by (simp add: ascii_digit_def)
qed

lemma sub_file_inj: "sub_file i j = sub_file i' j' \<Longrightarrow> i = i' \<and> j = j'"
proof -
  assume "sub_file i j = sub_file i' j'"
  then have "fmt_d 2 i @ 95 # (115 # fmt_d 2 j @ 46 # asc ''html'')
               = fmt_d 2 i' @ 95 # (115 # fmt_d 2 j' @ 46 # asc ''html'')"
    by (simp add: sub_file_def asc_def)
  from digits_split[OF this fmt_d_digits _ fmt_d_digits]
  have a: "fmt_d 2 i = fmt_d 2 i'"
    and b: "fmt_d 2 j @ 46 # asc ''html'' = fmt_d 2 j' @ 46 # asc ''html''"
    by (simp_all add: ascii_digit_def)
  from digits_split[OF b fmt_d_digits _ fmt_d_digits] have "fmt_d 2 j = fmt_d 2 j'"
    by (simp add: ascii_digit_def)
  then show ?thesis using a fmt_d_inj by blast
qed

lemma cat_file_not_sub_file: "cat_file i \<noteq> sub_file i' j'"
proof
  assume "cat_file i = sub_file i' j'"
  then have "fmt_d 2 i @ 46 # asc ''html''
               = fmt_d 2 i' @ 95 # (115 # fmt_d 2 j' @ 46 # asc ''html'')"
    by (simp add: cat_file_def sub_file_def asc_def)
  from digits_split[OF this fmt_d_digits _ fmt_d_digits] show False
    by (simp add: ascii_digit_def)
qed

lemma group_file_hd: "hd (group_file k) = 103"
  by (simp add: group_file_def asc_def)

lemma cat_file_hd: "hd (cat_file i) = 99"
  by (simp add: cat_file_def asc_def)

lemma sub_file_hd: "hd (sub_file i j) = 99"
  by (simp add: sub_file_def asc_def)

lemma group_file_not_cat_file: "group_file k \<noteq> cat_file i"
  using group_file_hd[of k] cat_file_hd[of i] by auto

lemma group_file_not_sub_file: "group_file k \<noteq> sub_file i j"
  using group_file_hd[of k] sub_file_hd[of i j] by auto

lemma fmt_d_examples:
  "fmt_d 2 7 = asc ''07''" "fmt_d 2 123 = asc ''123''" "fmt_d 4 45 = asc ''0045''"
  by code_simp+

lemma assign_filenames_example:
  "all_files (assign_filenames
     [\<lparr>ctitle = asc ''A'',
        subcategories =
          [\<lparr>stitle = asc ''1. a'', groups = [Group (asc ''g'') [], Group (asc ''h'') []], sfile = []\<rparr>,
           \<lparr>stitle = asc ''2. b'', groups = [Group (asc ''i'') []], sfile = []\<rparr>],
        cfile = []\<rparr>,
      \<lparr>ctitle = asc ''B'',
        subcategories = [\<lparr>stitle = asc ''1. c'', groups = [Group (asc ''j'') []], sfile = []\<rparr>],
        cfile = []\<rparr>])
   = [asc ''c01.html'', asc ''c02.html'',
      asc ''c01_s01.html'', asc ''c01_s02.html'', asc ''c02_s01.html'',
      asc ''g0001.html'', asc ''g0002.html'', asc ''g0003.html'', asc ''g0004.html'']"
  by code_simp

subsection \<open>The files of Categories and Subcategories\<close>

lemma map_fst_enum: "map (\<lambda>x. f (fst x)) (enumerate n xs) = map f [n..<n + length xs]"
  by (induction xs arbitrary: n) (simp_all add: upt_conv_Cons del: upt_Suc)

lemma map_snd_enum: "map (\<lambda>x. f (snd x)) (enumerate n xs) = map f xs"
  by (induction xs arbitrary: n) simp_all

lemma cfile_assign_cat_files:
  "map cfile (assign_cat_files cats) = map cat_file [1..<Suc (length cats)]"
  using map_fst_enum[of cat_file 1 cats]
  by (simp add: assign_cat_files_def split_def comp_def del: upt_Suc)

lemma sfile_assign_cat_files:
  "map sfile (all_subcategories (assign_cat_files cats))
     = concat (map (\<lambda>(i, c). map (sub_file i) [1..<Suc (length (subcategories c))])
                   (enumerate 1 cats))"
proof -
  have "map (\<lambda>x. sub_file i (fst x)) (enumerate 1 subs) = map (sub_file i) [1..<Suc (length subs)]"
    for i and subs :: "subcategory list"
    using map_fst_enum[of "sub_file i" 1 subs] by (simp del: upt_Suc)
  then show ?thesis
    by (simp add: all_subcategories_def assign_cat_files_def map_concat comp_def split_def
        del: upt_Suc)
qed

lemma all_groups_alt:
  "all_groups cats = concat (map (\<lambda>c. concat (map groups (subcategories c))) cats)"
  by (induction cats) (simp_all add: all_groups_def all_subcategories_def)

lemma groups_assign_cat_files: "all_groups (assign_cat_files cats) = all_groups cats"
proof -
  have "map (\<lambda>c. concat (map groups (subcategories c))) (assign_cat_files cats)
          = map (\<lambda>c. concat (map groups (subcategories c))) cats"
    using map_snd_enum[of "\<lambda>c. concat (map groups (subcategories c))" 1 cats]
    by (simp add: assign_cat_files_def split_def comp_def map_snd_enum)
  then show ?thesis
    by (simp only: all_groups_alt)
qed

lemma disjoint_images:
  assumes "\<forall>x \<in> A. P x" "\<forall>x \<in> B. Q x" "\<And>x. P x \<Longrightarrow> Q x \<Longrightarrow> False"
  shows "A \<inter> B = {}"
  using assms by blast

lemma distinct_enumerate_concat:
  assumes "\<And>i c. distinct (F i c)"
    and "\<And>i c i' c' x. x \<in> set (F i c) \<Longrightarrow> x \<in> set (F i' c') \<Longrightarrow> i = i'"
  shows "distinct (concat (map (\<lambda>(i, c). F i c) (enumerate n cs)))"
proof (induction cs arbitrary: n)
  case Nil
  then show ?case by simp
next
  case (Cons c cs)
  have "set (F n c) \<inter> set (concat (map (\<lambda>(i, c). F i c) (enumerate (Suc n) cs))) = {}"
  proof (rule ccontr)
    assume "\<not> ?thesis"
    then obtain x p where x: "x \<in> set (F n c)" and p: "p \<in> set (enumerate (Suc n) cs)"
      and x': "x \<in> set (F (fst p) (snd p))" by (auto simp: split_def)
    from p have "Suc n \<le> fst p" by (simp add: in_set_enumerate_eq)
    moreover have "n = fst p" using assms(2)[OF x x'] .
    ultimately show False by simp
  qed
  then show ?case using Cons.IH[of "Suc n"] assms(1) by simp
qed

lemma distinct_sub_files:
  "distinct (concat (map (\<lambda>(i, c). map (sub_file i) [1..<Suc (length (subcategories c))])
                         (enumerate 1 (cats :: category list))))"
proof -
  define F where "F = (\<lambda>i (c::category). map (sub_file i) [1..<Suc (length (subcategories c))])"
  have a: "distinct (F i c)" for i c
    unfolding F_def by (auto simp: distinct_map simp del: upt_Suc intro!: inj_onI dest: sub_file_inj)
  have b: "i = i'" if "x \<in> set (F i c)" "x \<in> set (F i' c')" for i c i' c' x
    using that unfolding F_def by (auto simp del: upt_Suc dest: sub_file_inj)
  have "distinct (concat (map (\<lambda>(i, c). F i c) (enumerate 1 cats)))"
    using a b by (rule distinct_enumerate_concat)
  then show ?thesis unfolding F_def .
qed

subsection \<open>The files of Groups\<close>

lemma number_groups_files:
  "map gfile (snd (number_groups k gs)) = map group_file [Suc k..<Suc (k + length gs)]
   \<and> fst (number_groups k gs) = k + length gs"
proof (induction gs arbitrary: k)
  case Nil
  then show ?case by simp
next
  case (Cons g gs)
  have "[Suc k..<Suc (k + length (g # gs))] = Suc k # [Suc (Suc k)..<Suc (Suc k + length gs)]"
    by (simp add: upt_conv_Cons del: upt_Suc)
  then show ?case using Cons.IH[of "Suc k"] by (simp add: Let_def del: upt_Suc)
qed

lemma upt_split: "[Suc k..<Suc (k + (a + b))] = [Suc k..<Suc (k + a)] @ [Suc (k + a)..<Suc (k + a + b)]"
  using upt_add_eq_append[of "Suc k" "Suc (k + a)" b] by (simp add: add.assoc del: upt_Suc)

lemma number_subs_files:
  "map gfile (concat (map groups (snd (number_subs k ss))))
     = map group_file [Suc k..<Suc (k + length (concat (map groups ss)))]
   \<and> fst (number_subs k ss) = k + length (concat (map groups ss))
   \<and> map sfile (snd (number_subs k ss)) = map sfile ss"
proof (induction ss arbitrary: k)
  case Nil
  then show ?case by simp
next
  case (Cons s ss)
  show ?case
    using number_groups_files[of k "groups s"] Cons.IH[of "k + length (groups s)"]
    by (simp add: Let_def upt_split add.assoc del: upt_Suc)
qed

lemma number_cats_files:
  "map gfile (all_groups (snd (number_cats k cs)))
     = map group_file [Suc k..<Suc (k + length (all_groups cs))]
   \<and> fst (number_cats k cs) = k + length (all_groups cs)
   \<and> map sfile (all_subcategories (snd (number_cats k cs))) = map sfile (all_subcategories cs)
   \<and> map cfile (snd (number_cats k cs)) = map cfile cs"
proof (induction cs arbitrary: k)
  case Nil
  then show ?case by (simp add: all_groups_def all_subcategories_def del: upt_Suc)
next
  case (Cons c cs)
  have ag: "all_groups (x # xs) = concat (map groups (subcategories x)) @ all_groups xs" for x xs
    by (simp add: all_groups_def all_subcategories_def)
  have as: "all_subcategories (x # xs) = subcategories x @ all_subcategories xs" for x xs
    by (simp add: all_subcategories_def)
  show ?case
    using number_subs_files[of k "subcategories c"]
      Cons.IH[of "k + length (concat (map groups (subcategories c)))"]
    by (simp add: Let_def ag as upt_split add.assoc del: upt_Suc)
qed

lemma all_files_assign_filenames:
  "all_files (assign_filenames cats)
     = map cat_file [1..<Suc (length cats)]
       @ concat (map (\<lambda>(i, c). map (sub_file i) [1..<Suc (length (subcategories c))])
                     (enumerate 1 cats))
       @ map group_file [1..<Suc (length (all_groups cats))]"
  using number_cats_files[of 0 "assign_cat_files cats"]
  by (simp add: all_files_def assign_filenames_def cfile_assign_cat_files
      sfile_assign_cat_files groups_assign_cat_files del: upt_Suc)

text \<open>
  Claim C8. After the filename assignment, the filenames of all Categories,
  Subcategories and Groups of the tree are pairwise distinct. The Categories get
  \<open>cat_file\<close> of 1, 2, ... in order, and the Groups get \<open>group_file\<close> of 1, 2, ... in
  the order of the tree, one counter for the whole tree.
\<close>

theorem filenames_distinct:
  "distinct (all_files (assign_filenames cats))
   \<and> map cfile (assign_filenames cats) = map cat_file [1..<Suc (length cats)]
   \<and> map sfile (all_subcategories (assign_filenames cats))
       = concat (map (\<lambda>(i, c). map (sub_file i) [1..<Suc (length (subcategories c))])
                     (enumerate 1 cats))
   \<and> map gfile (all_groups (assign_filenames cats))
       = map group_file [1..<Suc (length (all_groups cats))]"
proof -
  let ?C = "map cat_file [1..<Suc (length cats)]"
  let ?S = "concat (map (\<lambda>(i, c). map (sub_file i) [1..<Suc (length (subcategories c))])
                     (enumerate 1 cats))"
  let ?G = "map group_file [1..<Suc (length (all_groups cats))]"
  have dC: "distinct ?C"
    by (auto simp: distinct_map simp del: upt_Suc intro!: inj_onI dest: cat_file_inj)
  have dG: "distinct ?G"
    by (auto simp: distinct_map simp del: upt_Suc intro!: inj_onI dest: group_file_inj)
  have S: "\<forall>x \<in> set ?S. \<exists>i j. x = sub_file i j"
    by (auto simp: split_def simp del: upt_Suc)
  have C: "\<forall>x \<in> set ?C. \<exists>i. x = cat_file i"
    by (auto simp del: upt_Suc)
  have G: "\<forall>x \<in> set ?G. \<exists>k. x = group_file k"
    by (auto simp del: upt_Suc)
  have CS: "set ?C \<inter> set ?S = {}"
    by (rule disjoint_images[OF C S]) (use cat_file_not_sub_file in metis)
  have CG: "set ?C \<inter> set ?G = {}"
    by (rule disjoint_images[OF C G]) (use group_file_not_cat_file in metis)
  have SG: "set ?S \<inter> set ?G = {}"
    by (rule disjoint_images[OF S G]) (use group_file_not_sub_file in metis)
  have "distinct (?C @ ?S @ ?G)"
    using dC dG distinct_sub_files[of cats] CS CG SG
    by (simp add: Int_Un_distrib del: upt_Suc)
  then have d: "distinct (all_files (assign_filenames cats))"
    by (simp only: all_files_assign_filenames)
  have n: "map gfile (all_groups (assign_filenames cats)) = ?G"
    "map sfile (all_subcategories (assign_filenames cats)) = ?S"
    "map cfile (assign_filenames cats) = ?C"
    using number_cats_files[of 0 "assign_cat_files cats"]
    by (simp_all add: assign_filenames_def cfile_assign_cat_files
      sfile_assign_cat_files groups_assign_cat_files del: upt_Suc)
  show ?thesis using d n by (simp del: upt_Suc)
qed

end
